theory Spec2Isabelle
  imports Main "HOL-Library.Word" "HOL-Library.Monad_Syntax"
begin

section \<open>The divisibility prover (tpu_dialect.cc, isGuaranteedDivisible)\<close>

subsection \<open>Expression graphs\<close>

text \<open>
  An \<open>mlir::Value\<close> is a handle into the IR; \<open>value.getDefiningOp<Op>()\<close> looks at the
  operation that produces it. The IR is modelled as a store: values are named by
  numbers, and a graph maps every value to its defining operation. Only the four
  operation kinds the prover inspects are distinguished; every other operation, and a
  block argument (which has no defining operation), is \<open>OtherOp\<close>.
  The value attribute of an \<open>arith.constant\<close> is either an \<open>IntegerAttr\<close> or something
  else (a float, a dense vector, ...), for which the \<open>dyn_cast\<close> on line 200 gives null.
\<close>

type_synonym val = nat

datatype attribute = IntegerAttr int | OtherAttr

datatype operation =
    AssumeMultipleOp val int
  | MulIOp val val
  | ConstantOp attribute
  | IndexCastOp val
  | OtherOp

type_synonym graph = "val \<Rightarrow> operation"

text \<open>A finite graph written as a table; values that are not listed are opaque.\<close>

definition graph_of :: "(val \<times> operation) list \<Rightarrow> graph" where
  "graph_of tbl v = (case map_of tbl v of Some opn \<Rightarrow> opn | None \<Rightarrow> OtherOp)"

fun operands :: "operation \<Rightarrow> val list" where
  "operands (AssumeMultipleOp x m) = [x]"
| "operands (MulIOp lhs rhs) = [lhs, rhs]"
| "operands (ConstantOp a) = []"
| "operands (IndexCastOp x) = [x]"
| "operands OtherOp = []"

text \<open>The operand edges of a graph, from an operand to the value computed from it.\<close>

definition operand_edges :: "graph \<Rightarrow> (val \<times> val) set" where
  "operand_edges g = {(x, v). x \<in> set (operands (g v))}"

text \<open>A finite acyclic expression graph.\<close>

definition dag :: "graph \<Rightarrow> bool" where
  "dag g = (finite (operand_edges g) \<and> acyclic (operand_edges g))"

subsection \<open>Semantics of a graph over the integers\<close>

text \<open>
  An assignment gives every value an integer. It is consistent with the graph when
  every node has the value its operation computes from its operands, over the
  mathematical integers: a product is the product, an index cast keeps the number, an
  integer constant is its attribute. An assume-multiple annotation passes its operand
  through, and is honest when the operand is a multiple of the annotated number.
  Opaque nodes are unconstrained.
\<close>

definition node_ok :: "graph \<Rightarrow> (val \<Rightarrow> int) \<Rightarrow> val \<Rightarrow> bool" where
  "node_ok g \<sigma> v =
     (case g v of
        AssumeMultipleOp x m \<Rightarrow> \<sigma> v = \<sigma> x \<and> m dvd \<sigma> x
      | MulIOp lhs rhs \<Rightarrow> \<sigma> v = \<sigma> lhs * \<sigma> rhs
      | ConstantOp a \<Rightarrow> (case a of IntegerAttr c \<Rightarrow> \<sigma> v = c | OtherAttr \<Rightarrow> True)
      | IndexCastOp x \<Rightarrow> \<sigma> v = \<sigma> x
      | OtherOp \<Rightarrow> True)"

definition consistent :: "graph \<Rightarrow> (val \<Rightarrow> int) \<Rightarrow> bool" where
  "consistent g \<sigma> = (\<forall>v. node_ok g \<sigma> v)"

subsection \<open>The C++ arithmetic the prover uses\<close>

text \<open>
  \<open>divisor\<close> and \<open>fuel\<close> are \<open>int64_t\<close>. Numbers are modelled as integers, and the two
  places where the C++ has no defined result are outcomes of the model: \<open>a % b\<close> with
  \<open>b = 0\<close> (and \<open>INT64_MIN % -1\<close>), and the signed overflow of \<open>fuel + 1\<close>.
  Otherwise \<open>%\<close> is the remainder of the division that truncates towards zero.
\<close>

datatype fault = DivisionByZero | SignedOverflow

definition INT64_MAX :: int where
  "INT64_MAX = 2 ^ 63 - 1"

definition INT64_MIN :: int where
  "INT64_MIN = - (2 ^ 63)"

definition rem64 :: "int \<Rightarrow> int \<Rightarrow> fault + int" where
  "rem64 a b =
     (if b = 0 then Inl DivisionByZero
      else if a = INT64_MIN \<and> b = - 1 then Inl SignedOverflow
      else Inr (sgn a * (\<bar>a\<bar> mod \<bar>b\<bar>)))"

text \<open>The test \<open>a % b == 0\<close>.\<close>

definition rem_is_zero :: "int \<Rightarrow> int \<Rightarrow> fault + bool" where
  "rem_is_zero a b = (case rem64 a b of Inl e \<Rightarrow> Inl e | Inr r \<Rightarrow> Inr (r = 0))"

subsection \<open>isGuaranteedDivisible (lines 187-207)\<close>

text \<open>
  The recursion follows operand edges, and the graph is a store that could hold a
  cycle, so the function is partial: \<open>None\<close> is "does not return". A returned outcome is
  \<open>Inr True\<close> (proven), \<open>Inr False\<close> (not proven) or \<open>Inl\<close> of a fault.
  The branches are in the order of the source. In the multiply branch the right operand
  is tried first with \<open>fuel / 2\<close>; \<open>||\<close> evaluates the left call, and with it
  \<open>(fuel + 1) / 2\<close>, only when the right call returned false. Both divisions are on a
  positive fuel, where truncation and \<open>div\<close> agree.
\<close>

partial_function (option) isGuaranteedDivisible ::
  "graph \<Rightarrow> val \<Rightarrow> int \<Rightarrow> int \<Rightarrow> (fault + bool) option" where
  "isGuaranteedDivisible g v divisor fuel =
     (if fuel \<le> 0 then Some (Inr False)
      else case g v of
        AssumeMultipleOp x m \<Rightarrow> Some (rem_is_zero m divisor)
      | MulIOp lhs rhs \<Rightarrow>
          do {
            r \<leftarrow> isGuaranteedDivisible g rhs divisor (fuel div 2);
            case r of
              Inl e \<Rightarrow> Some (Inl e)
            | Inr b \<Rightarrow>
                if b then Some (Inr True)
                else if INT64_MAX < fuel + 1 then Some (Inl SignedOverflow)
                else isGuaranteedDivisible g lhs divisor ((fuel + 1) div 2)
          }
      | ConstantOp a \<Rightarrow>
          (case a of
             IntegerAttr c \<Rightarrow> Some (rem_is_zero c divisor)
           | OtherAttr \<Rightarrow> Some (Inr False))
      | IndexCastOp x \<Rightarrow> isGuaranteedDivisible g x divisor (fuel - 1)
      | OtherOp \<Rightarrow> Some (Inr False))"

declare isGuaranteedDivisible.simps [code]

subsection \<open>Example graphs\<close>

text \<open>
  \<open>v = castToIndex(mul(constant(3), mul(constant(4), y)))\<close>: value 0 is \<open>y\<close>, with any
  defining operation; value 5 is \<open>v\<close>.
\<close>

definition scenario :: "operation \<Rightarrow> graph" where
  "scenario yop = graph_of
     [(0, yop),
      (1, ConstantOp (IntegerAttr 4)),
      (2, MulIOp 1 0),
      (3, ConstantOp (IntegerAttr 3)),
      (4, MulIOp 3 2),
      (5, IndexCastOp 4)]"

text \<open>\<open>constant(6) * x\<close> with \<open>x\<close> (value 0) opaque; value 2 is the product.\<close>

definition six_times_x :: graph where
  "six_times_x = graph_of [(1, ConstantOp (IntegerAttr 6)), (2, MulIOp 1 0)]"

text \<open>A constant whose attribute is not an integer (value 0), and a cast of it.\<close>

definition float_constant :: graph where
  "float_constant = graph_of [(0, ConstantOp OtherAttr), (1, IndexCastOp 0)]"

text \<open>
  A chain of multiplies through left operands, \<open>((6 * y) * y) * y\<close>: value 0 is \<open>y\<close>
  (opaque), value 1 the constant, value 4 the outermost product.
\<close>

definition left_chain :: graph where
  "left_chain = graph_of
     [(1, ConstantOp (IntegerAttr 6)),
      (2, MulIOp 1 0),
      (3, MulIOp 2 0),
      (4, MulIOp 3 0)]"

section \<open>Tiled layouts and their affine maps (tpu_dialect.cc, TiledLayoutAttr)\<close>

subsection \<open>The descriptor\<close>

text \<open>
  An \<open>xla::Tile\<close> is its list of \<open>int64_t\<close> dimensions; a \<open>TiledLayoutAttr\<close> holds the tiles,
  outermost first, and the \<open>int64_t\<close> tile strides (the two arguments of \<open>get\<close> on line 149).
\<close>

type_synonym int64 = "64 word"

record Tile =
  dimensions :: "int64 list"

record TiledLayoutAttr =
  tiles :: "Tile list"
  tile_strides :: "int64 list"

subsection \<open>Affine expressions and maps\<close>

text \<open>
  Modelled from the spec: \<open>mlir::AffineExpr\<close> and \<open>mlir::AffineMap\<close> belong to MLIR and are
  not in the repository. The spec (4.2, 9) describes the formula as a composable function
  from integer tuples to integer tuples with a domain arity and a codomain arity. Of the
  expression forms only those getAffineMap builds are needed: a dimension,
  \<open>floorDiv\<close> by a constant and \<open>%\<close> by a constant. Expressions are kept as built (MLIR's
  constructors may simplify an expression; that does not change its value or the number
  of results). A map has no symbols here (\<open>AffineMap::get(n, 0, exprs, ctx)\<close>).
\<close>

datatype AffineExpr =
    AffineDimExpr nat
  | FloorDiv AffineExpr int
  | Mod AffineExpr int

record AffineMap =
  numDims :: nat
  results :: "AffineExpr list"

definition getNumResults :: "AffineMap \<Rightarrow> nat" where
  "getNumResults m = length (results m)"

definition getMultiDimIdentityMap :: "nat \<Rightarrow> AffineMap" where
  "getMultiDimIdentityMap n = \<lparr>numDims = n, results = map AffineDimExpr [0..<n]\<rparr>"

text \<open>
  \<open>AffineMap::compose\<close> is MLIR's and not in the repository; it is modelled by its
  contract in MLIR's \<open>AffineMap.h\<close>: \<open>this.compose(map)\<close> has as many dimensions as
  \<open>map\<close> and as many results as \<open>this\<close>, every dimension \<open>d\<^sub>i\<close> of \<open>this\<close> being replaced
  by the \<open>i\<close>-th result of \<open>map\<close>, and requires the number of dimensions of \<open>this\<close> to be
  the number of results of \<open>map\<close>. The source agrees: line 174 builds \<open>tile_map\<close> with
  exactly \<open>map.getNumResults()\<close> dimensions before line 175 calls \<open>tile_map.compose(map)\<close>.
\<close>

fun replaceDims :: "AffineExpr list \<Rightarrow> AffineExpr \<Rightarrow> AffineExpr" where
  "replaceDims rs (AffineDimExpr i) = (if i < length rs then rs ! i else AffineDimExpr i)"
| "replaceDims rs (FloorDiv e c) = FloorDiv (replaceDims rs e) c"
| "replaceDims rs (Mod e c) = Mod (replaceDims rs e) c"

definition compose :: "AffineMap \<Rightarrow> AffineMap \<Rightarrow> AffineMap" where
  "compose this m =
     \<lparr>numDims = numDims m, results = map (replaceDims (results m)) (results this)\<rparr>"

text \<open>
  Applying a map to an index tuple: defined on tuples of the map's domain arity
  (\<open>None\<close> otherwise). Division and remainder are the mathematical floor operations.
\<close>

fun eval_expr :: "int list \<Rightarrow> AffineExpr \<Rightarrow> int" where
  "eval_expr xs (AffineDimExpr i) = (if i < length xs then xs ! i else 0)"
| "eval_expr xs (FloorDiv e c) = eval_expr xs e div c"
| "eval_expr xs (Mod e c) = eval_expr xs e mod c"

definition apply_map :: "AffineMap \<Rightarrow> int list \<Rightarrow> int list option" where
  "apply_map m xs =
     (if length xs = numDims m then Some (map (eval_expr xs) (results m)) else None)"

text \<open>Every dimension an expression mentions is below \<open>n\<close>.\<close>

fun dims_below :: "nat \<Rightarrow> AffineExpr \<Rightarrow> bool" where
  "dims_below n (AffineDimExpr i) = (i < n)"
| "dims_below n (FloorDiv e c) = dims_below n e"
| "dims_below n (Mod e c) = dims_below n e"

subsection \<open>getAffineMap (lines 152-178)\<close>

text \<open>\<open>LOG(FATAL)\<close> on line 161 ends the program; it is the only failure of the function.\<close>

datatype fatal = Invalid_TiledLayoutAttr

text \<open>
  Line 159: \<open>map.getNumResults() - dimensions.size()\<close> is computed on unsigned numbers and
  stored in an \<open>int64_t\<close>, which gives the signed difference.
\<close>

definition untiled_dims_of :: "AffineMap \<Rightarrow> Tile \<Rightarrow> int" where
  "untiled_dims_of m tile = int (getNumResults m) - int (length (dimensions tile))"

text \<open>The expression list of one iteration (lines 163-173), for a non-negative \<open>untiled_dims\<close>.\<close>

definition tile_exprs :: "nat \<Rightarrow> int64 list \<Rightarrow> AffineExpr list" where
  "tile_exprs untiled_dims dims =
     map AffineDimExpr [0..<untiled_dims]
     @ map (\<lambda>i. FloorDiv (AffineDimExpr (untiled_dims + i)) (sint (dims ! i))) [0..<length dims]
     @ map (\<lambda>i. Mod (AffineDimExpr (untiled_dims + i)) (sint (dims ! i))) [0..<length dims]"

text \<open>Line 174: the per-tile map, over as many dimensions as the map so far has results.\<close>

definition tile_map_of :: "AffineMap \<Rightarrow> Tile \<Rightarrow> AffineMap" where
  "tile_map_of m tile =
     \<lparr>numDims = getNumResults m,
      results = tile_exprs (nat (untiled_dims_of m tile)) (dimensions tile)\<rparr>"

text \<open>One iteration of the loop over the tiles (lines 157-175).\<close>

definition tile_step :: "AffineMap \<Rightarrow> Tile \<Rightarrow> fatal + AffineMap" where
  "tile_step m tile =
     (if untiled_dims_of m tile < 0 then Inl Invalid_TiledLayoutAttr
      else Inr (compose (tile_map_of m tile) m))"

fun tile_loop :: "AffineMap \<Rightarrow> Tile list \<Rightarrow> fatal + AffineMap" where
  "tile_loop m [] = Inr m"
| "tile_loop m (tile # rest) =
     (case tile_step m tile of
        Inl e \<Rightarrow> Inl e
      | Inr m' \<Rightarrow> tile_loop m' rest)"

definition getAffineMap :: "TiledLayoutAttr \<Rightarrow> fatal + AffineMap" where
  "getAffineMap a = tile_loop (getMultiDimIdentityMap (length (tile_strides a))) (tiles a)"

text \<open>
  The values \<open>untiled_dims\<close> takes on line 159, one per iteration the loop runs (the
  loop stops at the first negative one).
\<close>

fun untiled_dims_trace :: "AffineMap \<Rightarrow> Tile list \<Rightarrow> int list" where
  "untiled_dims_trace m [] = []"
| "untiled_dims_trace m (tile # rest) =
     untiled_dims_of m tile #
       (case tile_step m tile of
          Inl e \<Rightarrow> []
        | Inr m' \<Rightarrow> untiled_dims_trace m' rest)"

text \<open>The ranks \<open>k\<^sub>1, ..., k\<^sub>n\<close> of the tiles of a descriptor.\<close>

definition tile_ranks :: "TiledLayoutAttr \<Rightarrow> nat list" where
  "tile_ranks a = map (\<lambda>t. length (dimensions t)) (tiles a)"

subsection \<open>Example descriptors\<close>

text \<open>\<open><(8,128),[1,8]>\<close>, \<open><(2)(3),[1]>\<close> and \<open><(8,128,4),[1,8]>\<close> (a tile of rank 3 over 2 strides).\<close>

definition layout_8x128 :: TiledLayoutAttr where
  "layout_8x128 = \<lparr>tiles = [\<lparr>dimensions = [8, 128]\<rparr>], tile_strides = [1, 8]\<rparr>"

definition layout_2_3 :: TiledLayoutAttr where
  "layout_2_3 = \<lparr>tiles = [\<lparr>dimensions = [2]\<rparr>, \<lparr>dimensions = [3]\<rparr>], tile_strides = [1]\<rparr>"

definition layout_bad :: TiledLayoutAttr where
  "layout_bad = \<lparr>tiles = [\<lparr>dimensions = [8, 128, 4]\<rparr>], tile_strides = [1, 8]\<rparr>"

text \<open>The map after the first tile of \<open>layout_2_3\<close>: \<open>(d0) -> (d0 floordiv 2, d0 mod 2)\<close>.\<close>

definition map_after_2 :: AffineMap where
  "map_after_2 = \<lparr>numDims = 1, results = [FloorDiv (AffineDimExpr 0) 2, Mod (AffineDimExpr 0) 2]\<rparr>"

section \<open>Text form of a tiled layout (tpu_dialect.cc, TiledLayoutAttr::print and ::parse)\<close>

subsection \<open>Tokens and the lexer\<close>

text \<open>
  Modelled from the spec: the character-stream parser is MLIR's \<open>AsmParser\<close> and is not in
  the repository. The spec (6) requires of it "consume-literal, consume-optional-literal
  (non-failing probe), consume-integer, with clear success/failure signaling". The
  parser reads tokens; the lexer below covers the characters of the grammar of spec 4.1:
  the punctuation \<open>< > ( ) [ ] , -\<close>, decimal integer literals (the longest run of
  digits), and white space, which separates tokens. Any other character is a token of
  its own that no parsing function accepts.
\<close>

datatype token =
    Less | Greater | LParen | RParen | LSquare | RSquare | Comma | Minus
  | Integer nat
  | Other char

text \<open>Decimal digits are the characters with codes 48 to 57.\<close>

definition is_digit :: "char \<Rightarrow> bool" where
  "is_digit c = (48 \<le> (of_char c :: nat) \<and> (of_char c :: nat) \<le> 57)"

definition digit_val :: "char \<Rightarrow> nat" where
  "digit_val c = of_char c - 48"

definition is_space :: "char \<Rightarrow> bool" where
  "is_space c = (c = CHR '' '' \<or> c = CHR 0x0A \<or> c = CHR 0x09 \<or> c = CHR 0x0D)"

definition punct :: "char \<Rightarrow> token" where
  "punct c =
     (if c = CHR ''<'' then Less else if c = CHR ''>'' then Greater
      else if c = CHR ''('' then LParen else if c = CHR '')'' then RParen
      else if c = CHR ''['' then LSquare else if c = CHR '']'' then RSquare
      else if c = CHR '','' then Comma else if c = CHR ''-'' then Minus
      else Other c)"

text \<open>The token a finished run of digits gives, if one is pending.\<close>

definition flush :: "nat option \<Rightarrow> token list" where
  "flush pending = (case pending of None \<Rightarrow> [] | Some n \<Rightarrow> [Integer n])"

fun lexer :: "nat option \<Rightarrow> string \<Rightarrow> token list" where
  "lexer pending [] = flush pending"
| "lexer pending (c # cs) =
     (if is_digit c
      then lexer (Some (10 * (case pending of None \<Rightarrow> 0 | Some n \<Rightarrow> n) + digit_val c)) cs
      else flush pending @ (if is_space c then [] else [punct c]) @ lexer None cs)"

definition tokens :: "string \<Rightarrow> token list" where
  "tokens s = lexer None s"

subsection \<open>The parsing functions of AsmParser\<close>

text \<open>
  Modelled from the spec (see above). The state of the parser is the list of tokens not
  yet consumed. A function that succeeds returns the state after the token it consumed;
  \<open>None\<close> is failure. The \<open>parseOptional...\<close> probes consume nothing when they fail, so
  the caller goes on with the state it had. \<open>parseInteger\<close> reads an optional minus sign
  and an integer literal, and fails if the number does not fit \<open>int64_t\<close>.
\<close>

definition expect :: "token \<Rightarrow> token list \<Rightarrow> token list option" where
  "expect t ts = (case ts of [] \<Rightarrow> None | x # rest \<Rightarrow> if x = t then Some rest else None)"

definition parseLess :: "token list \<Rightarrow> token list option" where
  "parseLess = expect Less"

definition parseGreater :: "token list \<Rightarrow> token list option" where
  "parseGreater = expect Greater"

definition parseComma :: "token list \<Rightarrow> token list option" where
  "parseComma = expect Comma"

definition parseOptionalLParen :: "token list \<Rightarrow> token list option" where
  "parseOptionalLParen = expect LParen"

definition parseOptionalRParen :: "token list \<Rightarrow> token list option" where
  "parseOptionalRParen = expect RParen"

definition parseOptionalLSquare :: "token list \<Rightarrow> token list option" where
  "parseOptionalLSquare = expect LSquare"

definition parseOptionalRSquare :: "token list \<Rightarrow> token list option" where
  "parseOptionalRSquare = expect RSquare"

definition parseInteger :: "token list \<Rightarrow> (int64 \<times> token list) option" where
  "parseInteger ts =
     (case ts of
        Integer n # rest \<Rightarrow>
          if int n \<le> INT64_MAX then Some (word_of_nat n, rest) else None
      | Minus # Integer n # rest \<Rightarrow>
          if INT64_MIN \<le> - int n then Some (- word_of_nat n, rest) else None
      | _ \<Rightarrow> None)"

subsection \<open>TiledLayoutAttr::parse (lines 102-150)\<close>

text \<open>
  The two inner \<open>while\<close> loops (lines 111-122 for the dimensions of a tile, lines 131-142
  for the strides) have the same body and differ in the closing probe only, which is the
  first argument here. \<open>first\<close> is the flag of the source, \<open>acc\<close> the numbers added so far.
  Every iteration that does not fail consumes an integer, so the loop ends.
\<close>

function parse_ints ::
  "(token list \<Rightarrow> token list option) \<Rightarrow> bool \<Rightarrow> int64 list \<Rightarrow> token list
     \<Rightarrow> (int64 list \<times> token list) option" where
  "parse_ints closing first acc ts =
     (case closing ts of
        Some rest \<Rightarrow> Some (acc, rest)
      | None \<Rightarrow>
          (case (if \<not> first then parseComma ts else Some ts) of
             None \<Rightarrow> None
           | Some ts1 \<Rightarrow>
               (case parseInteger ts1 of
                  None \<Rightarrow> None
                | Some (n, ts2) \<Rightarrow> parse_ints closing False (acc @ [n]) ts2)))"
  by pat_completeness auto
termination
proof (relation "measure (\<lambda>(closing, first, acc, ts). length ts)")
  show "wf (measure (\<lambda>(closing, first, acc, ts). length ts))" by simp
next
  fix closing :: "token list \<Rightarrow> token list option"
  fix first :: bool and acc :: "int64 list" and ts ts1 :: "token list"
  fix x :: "int64 \<times> token list" and n :: int64 and ts2 :: "token list"
  assume "(if \<not> first then parseComma ts else Some ts) = Some ts1"
  then have "length ts1 \<le> length ts"
    by (auto simp: parseComma_def expect_def split: if_splits list.splits)
  moreover assume "parseInteger ts1 = Some x" and "(n, ts2) = x"
  then have "length ts2 < length ts1"
    by (auto simp: parseInteger_def split: list.splits token.splits if_splits)
  ultimately show "((closing, False, acc @ [n], ts2), (closing, first, acc, ts))
      \<in> measure (\<lambda>(closing, first, acc, ts). length ts)"
    by simp
qed

declare parse_ints.simps [simp del]

text \<open>The outer loop (lines 108-123): one tile per opening parenthesis.\<close>

function parse_tiles :: "Tile list \<Rightarrow> token list \<Rightarrow> (Tile list \<times> token list) option" where
  "parse_tiles parsed ts =
     (case parseOptionalLParen ts of
        None \<Rightarrow> Some (parsed, ts)
      | Some ts1 \<Rightarrow>
          (case parse_ints parseOptionalRParen True [] ts1 of
             None \<Rightarrow> None
           | Some (dims, ts2) \<Rightarrow> parse_tiles (parsed @ [\<lparr>dimensions = dims\<rparr>]) ts2))"
  by pat_completeness auto
termination
proof (relation "measure (\<lambda>(parsed, ts). length ts)")
  show "wf (measure (\<lambda>(parsed, ts). length ts))" by simp
next
  fix parsed :: "Tile list" and ts ts1 :: "token list"
  fix x :: "int64 list \<times> token list" and dims :: "int64 list" and ts2 :: "token list"
  have shrink: "(\<And>us rest. closing us = Some rest \<Longrightarrow> length rest \<le> length us) \<Longrightarrow>
      parse_ints closing first acc us = Some (r, rest) \<Longrightarrow> length rest \<le> length us"
    for closing first acc us r rest
  proof (induction closing first acc us arbitrary: r rest rule: parse_ints.induct)
    case (1 closing first acc us)
    note closing = "1.prems"(1) and run = "1.prems"(2)
    show ?case
    proof (cases "closing us")
      case (Some rest')
      with run have "rest = rest'"
        by (simp add: parse_ints.simps [of closing first acc us])
      with closing [OF Some] show ?thesis by simp
    next
      case None
      with run obtain ts1 n ts2 where
        a: "(if \<not> first then parseComma us else Some us) = Some ts1"
        and b: "parseInteger ts1 = Some (n, ts2)"
        and c: "parse_ints closing False (acc @ [n]) ts2 = Some (r, rest)"
        by (auto simp: parse_ints.simps [of closing first acc us] split: option.splits)
      from "1.IH" [OF None a b refl closing c] have "length rest \<le> length ts2" .
      moreover from b have "length ts2 < length ts1"
        by (auto simp: parseInteger_def split: list.splits token.splits if_splits)
      moreover from a have "length ts1 \<le> length us"
        by (auto simp: parseComma_def expect_def split: if_splits list.splits)
      ultimately show ?thesis by simp
    qed
  qed
  assume "parseOptionalLParen ts = Some ts1"
  then have "length ts1 < length ts"
    by (auto simp: parseOptionalLParen_def expect_def split: if_splits list.splits)
  moreover assume "parse_ints parseOptionalRParen True [] ts1 = Some x" and "(dims, ts2) = x"
  then have "parse_ints parseOptionalRParen True [] ts1 = Some (dims, ts2)" by simp
  then have "length ts2 \<le> length ts1"
    by (rule shrink [rotated])
       (auto simp: parseOptionalRParen_def expect_def split: if_splits list.splits)
  ultimately show "((parsed @ [\<lparr>dimensions = dims\<rparr>], ts2), (parsed, ts))
      \<in> measure (\<lambda>(parsed, ts). length ts)"
    by simp
qed

declare parse_tiles.simps [simp del]

text \<open>
  The whole function. A failure anywhere returns the null attribute (\<open>return {}\<close>), here
  \<open>None\<close>; success returns the attribute built by \<open>get\<close> and leaves the parser after the
  closing \<open>>\<close>.
\<close>

definition parse :: "token list \<Rightarrow> (TiledLayoutAttr \<times> token list) option" where
  "parse ts =
     do {
       ts1 \<leftarrow> parseLess ts;
       (parsed, ts2) \<leftarrow> parse_tiles [] ts1;
       ts3 \<leftarrow> parseComma ts2;
       ts4 \<leftarrow> parseOptionalLSquare ts3;
       (strides, ts5) \<leftarrow> parse_ints parseOptionalRSquare True [] ts4;
       ts6 \<leftarrow> parseGreater ts5;
       Some (\<lparr>tiles = parsed, tile_strides = strides\<rparr>, ts6)
     }"

text \<open>Parsing a text: the attribute only.\<close>

definition parse_text :: "string \<Rightarrow> TiledLayoutAttr option" where
  "parse_text s = map_option fst (parse (tokens s))"

subsection \<open>TiledLayoutAttr::print (lines 87-100)\<close>

text \<open>An \<open>int64_t\<close> sent to the printer: decimal, with a minus sign when negative.\<close>

definition digit_char :: "nat \<Rightarrow> char" where
  "digit_char d = char_of (48 + d)"

fun digits :: "nat \<Rightarrow> string" where
  "digits n = (if n < 10 then [digit_char n] else digits (n div 10) @ [digit_char (n mod 10)])"

declare digits.simps [simp del]

definition print_int64 :: "int64 \<Rightarrow> string" where
  "print_int64 w =
     (if sint w < 0 then CHR ''-'' # digits (nat (- sint w)) else digits (nat (sint w)))"

text \<open>
  Modelled from the spec: \<open>xla::Tile::ToString\<close> belongs to XLA and is not in the
  repository. Spec 4.1: "Printing emits each tile as \<open>(d0,d1,...)\<close>".
\<close>

fun comma_join :: "string list \<Rightarrow> string" where
  "comma_join [] = []"
| "comma_join [x] = x"
| "comma_join (x # y # ys) = x @ '','' @ comma_join (y # ys)"

definition Tile_ToString :: "Tile \<Rightarrow> string" where
  "Tile_ToString tile = ''('' @ comma_join (map print_int64 (dimensions tile)) @ '')''"

text \<open>The loop over the strides (lines 93-98), from index \<open>i\<close> on.\<close>

fun print_strides :: "nat \<Rightarrow> int64 list \<Rightarrow> string" where
  "print_strides i [] = []"
| "print_strides i (s # rest) =
     (if 0 < i then '','' else []) @ print_int64 s @ print_strides (Suc i) rest"

definition print :: "TiledLayoutAttr \<Rightarrow> string" where
  "print a =
     ''<'' @ concat (map Tile_ToString (tiles a)) @ '',['' @ print_strides 0 (tile_strides a)
     @ '']>''"

subsection \<open>The grammar of spec 4.1, on tokens\<close>

text \<open>
  \<^verbatim>\<open>descriptor := '<' tile* ',' '[' stride_list ']' '>'\<close>,
  \<^verbatim>\<open>tile := '(' int_list ')'\<close>,
  \<^verbatim>\<open>int_list := [ int (',' int)* ]\<close>, and the same for \<^verbatim>\<open>stride_list\<close>.
  Each relation holds between the value a phrase denotes and the tokens that spell it.
  An \<open>int\<close> is an integer literal with an optional minus sign that fits \<open>int64_t\<close>.
\<close>

definition int_toks :: "int64 \<Rightarrow> token list \<Rightarrow> bool" where
  "int_toks w ts =
     (\<exists>n. (ts = [Integer n] \<and> int n \<le> INT64_MAX \<and> w = word_of_nat n) \<or>
          (ts = [Minus, Integer n] \<and> INT64_MIN \<le> - int n \<and> w = - word_of_nat n))"

inductive more_ints :: "int64 list \<Rightarrow> token list \<Rightarrow> bool" where
  more_none: "more_ints [] []"
| more_int: "int_toks w a \<Longrightarrow> more_ints ws b \<Longrightarrow> more_ints (w # ws) (Comma # a @ b)"

inductive int_list :: "int64 list \<Rightarrow> token list \<Rightarrow> bool" where
  int_list_empty: "int_list [] []"
| int_list_some: "int_toks w a \<Longrightarrow> more_ints ws b \<Longrightarrow> int_list (w # ws) (a @ b)"

inductive tile_seq :: "Tile list \<Rightarrow> token list \<Rightarrow> bool" where
  tile_seq_empty: "tile_seq [] []"
| tile_seq_tile:
    "int_list ds a \<Longrightarrow> tile_seq tls b \<Longrightarrow>
       tile_seq (\<lparr>dimensions = ds\<rparr> # tls) (LParen # a @ RParen # b)"

definition descriptor :: "TiledLayoutAttr \<Rightarrow> token list \<Rightarrow> bool" where
  "descriptor a ts =
     (\<exists>tt st. tile_seq (tiles a) tt \<and> int_list (tile_strides a) st \<and>
        ts = Less # tt @ Comma # LSquare # st @ [RSquare, Greater])"

text \<open>A text is well formed when its tokens start with a descriptor.\<close>

definition well_formed :: "string \<Rightarrow> bool" where
  "well_formed s = (\<exists>a body rest. descriptor a body \<and> tokens s = body @ rest)"

subsection \<open>Example texts\<close>

definition layout_two_level :: TiledLayoutAttr where
  "layout_two_level =
     \<lparr>tiles = [\<lparr>dimensions = [8, 128]\<rparr>, \<lparr>dimensions = [1, 128]\<rparr>], tile_strides = [1, 8]\<rparr>"

subsection \<open>The tokens of a printed descriptor\<close>

text \<open>What the lexer makes of the printer's output, phrase by phrase (used in the proofs).\<close>

definition int64_tokens :: "int64 \<Rightarrow> token list" where
  "int64_tokens w =
     (if sint w < 0 then [Minus, Integer (nat (- sint w))] else [Integer (nat (sint w))])"

definition more_tokens :: "int64 list \<Rightarrow> token list" where
  "more_tokens ws = concat (map (\<lambda>w. Comma # int64_tokens w) ws)"

definition list_tokens :: "int64 list \<Rightarrow> token list" where
  "list_tokens ws = (case ws of [] \<Rightarrow> [] | w # rest \<Rightarrow> int64_tokens w @ more_tokens rest)"

definition tile_tokens :: "Tile \<Rightarrow> token list" where
  "tile_tokens tile = LParen # list_tokens (dimensions tile) @ [RParen]"

definition descriptor_tokens :: "TiledLayoutAttr \<Rightarrow> token list" where
  "descriptor_tokens a =
     Less # concat (map tile_tokens (tiles a)) @ Comma # LSquare
       # list_tokens (tile_strides a) @ [RSquare, Greater]"

text \<open>The characters that end a number in the printer's output.\<close>

definition closes_number :: "char \<Rightarrow> bool" where
  "closes_number c = (c = CHR '','' \<or> c = CHR '')'' \<or> c = CHR '']'')"

section \<open>Properties of the divisibility prover\<close>

subsection \<open>The remainder test\<close>

lemma rem_is_zero_True: "rem_is_zero a b = Inr True \<Longrightarrow> b dvd a"
  unfolding rem_is_zero_def rem64_def
  by (auto simp: sgn_if split: if_splits)

lemma rem_is_zero_pos: "0 < b \<Longrightarrow> rem_is_zero a b = Inr (b dvd a)"
  unfolding rem_is_zero_def rem64_def
  by (auto simp: sgn_if mod_eq_0_iff_dvd)

subsection \<open>One unfolding per branch\<close>

lemma isGD_no_fuel: "fuel \<le> 0 \<Longrightarrow> isGuaranteedDivisible g v d fuel = Some (Inr False)"
  by (subst isGuaranteedDivisible.simps) simp

lemma isGD_assume:
  "0 < fuel \<Longrightarrow> g v = AssumeMultipleOp x m \<Longrightarrow>
     isGuaranteedDivisible g v d fuel = Some (rem_is_zero m d)"
  by (subst isGuaranteedDivisible.simps) simp

lemma isGD_mul:
  "0 < fuel \<Longrightarrow> g v = MulIOp lhs rhs \<Longrightarrow>
     isGuaranteedDivisible g v d fuel =
       (case isGuaranteedDivisible g rhs d (fuel div 2) of
          None \<Rightarrow> None
        | Some (Inl e) \<Rightarrow> Some (Inl e)
        | Some (Inr b) \<Rightarrow>
            if b then Some (Inr True)
            else if INT64_MAX < fuel + 1 then Some (Inl SignedOverflow)
            else isGuaranteedDivisible g lhs d ((fuel + 1) div 2))"
  by (subst isGuaranteedDivisible.simps) (simp split: option.splits sum.splits)

lemma isGD_const_int:
  "0 < fuel \<Longrightarrow> g v = ConstantOp (IntegerAttr c) \<Longrightarrow>
     isGuaranteedDivisible g v d fuel = Some (rem_is_zero c d)"
  by (subst isGuaranteedDivisible.simps) simp

lemma isGD_const_other:
  "0 < fuel \<Longrightarrow> g v = ConstantOp OtherAttr \<Longrightarrow>
     isGuaranteedDivisible g v d fuel = Some (Inr False)"
  by (subst isGuaranteedDivisible.simps) simp

lemma isGD_cast:
  "0 < fuel \<Longrightarrow> g v = IndexCastOp x \<Longrightarrow>
     isGuaranteedDivisible g v d fuel = isGuaranteedDivisible g x d (fuel - 1)"
  by (subst isGuaranteedDivisible.simps) simp

lemma isGD_other:
  "0 < fuel \<Longrightarrow> g v = OtherOp \<Longrightarrow> isGuaranteedDivisible g v d fuel = Some (Inr False)"
  by (subst isGuaranteedDivisible.simps) simp

lemma isGD_True_fuel: "isGuaranteedDivisible g v d fuel = Some (Inr True) \<Longrightarrow> 0 < fuel"
  by (rule ccontr) (simp add: isGD_no_fuel)

subsection \<open>Graphs\<close>

lemma dag_wf: "dag g \<Longrightarrow> wf (operand_edges g)"
  by (simp add: dag_def finite_acyclic_wf)

lemma operand_edges_graph_of:
  "operand_edges (graph_of tbl) \<subseteq> (\<Union>(v, opn) \<in> set tbl. set (operands opn)) \<times> fst ` set tbl"
proof
  fix e
  assume e: "e \<in> operand_edges (graph_of tbl)"
  obtain x v where xv: "e = (x, v)" by (cases e)
  with e have x: "x \<in> set (operands (graph_of tbl v))"
    by (simp add: operand_edges_def)
  then obtain opn where m: "map_of tbl v = Some opn" and xo: "x \<in> set (operands opn)"
    by (cases "map_of tbl v") (simp_all add: graph_of_def)
  from m have mem: "(v, opn) \<in> set tbl" by (rule map_of_SomeD)
  then have "v \<in> fst ` set tbl" by force
  moreover from mem xo have "x \<in> (\<Union>(v, opn) \<in> set tbl. set (operands opn))" by blast
  ultimately show "e \<in> (\<Union>(v, opn) \<in> set tbl. set (operands opn)) \<times> fst ` set tbl"
    using xv by simp
qed

lemma finite_operand_edges_graph_of: "finite (operand_edges (graph_of tbl))"
  by (rule finite_subset [OF operand_edges_graph_of]) auto

text \<open>A table in which every operand is numbered below the value it defines is a dag.\<close>

lemma dag_graph_of:
  assumes "\<And>v x. x \<in> set (operands (graph_of tbl v)) \<Longrightarrow> x < v"
  shows "dag (graph_of tbl)"
proof -
  have "acyclic (operand_edges (graph_of tbl))"
  proof (rule acyclicI_order [where f = "\<lambda>v. - int v"])
    fix a b
    assume "(a, b) \<in> operand_edges (graph_of tbl)"
    then have "a < b" using assms by (simp add: operand_edges_def)
    then show "- int b < - int a" by simp
  qed
  then show ?thesis by (simp add: dag_def finite_operand_edges_graph_of)
qed

lemma dag_six_times_x: "dag six_times_x"
  unfolding six_times_x_def
  by (rule dag_graph_of) (auto simp: graph_of_def split: if_splits)

lemma dag_float_constant: "dag float_constant"
  unfolding float_constant_def
  by (rule dag_graph_of) (auto simp: graph_of_def split: if_splits)

lemma dag_scenario: "dag (scenario OtherOp)"
  unfolding scenario_def
  by (rule dag_graph_of) (auto simp: graph_of_def split: if_splits)

subsection \<open>Termination on finite acyclic graphs\<close>



text \<open>
  With fuel 1 the prover still walks down three left operands to the constant: the fuel
  does not bound the depth of the recursion, the graph does.
\<close>

lemma fuel_one_follows_left_operands:
  "isGuaranteedDivisible left_chain 4 6 1 = Some (Inr True)"
  by (simp add: isGuaranteedDivisible.simps left_chain_def graph_of_def
      rem_is_zero_def rem64_def INT64_MAX_def INT64_MIN_def)


subsection \<open>Soundness\<close>

lemma isGD_sound_aux:
  assumes "isGuaranteedDivisible g v d fuel = Some r"
  shows "r = Inr True \<longrightarrow> (\<forall>\<sigma>. consistent g \<sigma> \<longrightarrow> d dvd \<sigma> v)"
proof (rule isGuaranteedDivisible.raw_induct
    [where P = "\<lambda>g v d fuel r. r = Inr True \<longrightarrow> (\<forall>\<sigma>. consistent g \<sigma> \<longrightarrow> d dvd \<sigma> v)",
     OF _ assms])
  fix f g v d fuel r
  assume IH: "\<And>g v d fuel r. f g v d fuel = Some r \<Longrightarrow>
      r = Inr True \<longrightarrow> (\<forall>\<sigma>. consistent g \<sigma> \<longrightarrow> d dvd \<sigma> v)"
    and body: "(if fuel \<le> 0 then Some (Inr False)
      else case g v of
        AssumeMultipleOp x m \<Rightarrow> Some (rem_is_zero m d)
      | MulIOp lhs rhs \<Rightarrow>
          do {
            r \<leftarrow> f g rhs d (fuel div 2);
            case r of
              Inl e \<Rightarrow> Some (Inl e)
            | Inr b \<Rightarrow>
                if b then Some (Inr True)
                else if INT64_MAX < fuel + 1 then Some (Inl SignedOverflow)
                else f g lhs d ((fuel + 1) div 2)
          }
      | ConstantOp a \<Rightarrow>
          (case a of
             IntegerAttr c \<Rightarrow> Some (rem_is_zero c d)
           | OtherAttr \<Rightarrow> Some (Inr False))
      | IndexCastOp x \<Rightarrow> f g x d (fuel - 1)
      | OtherOp \<Rightarrow> Some (Inr False)) = Some r"
  show "r = Inr True \<longrightarrow> (\<forall>\<sigma>. consistent g \<sigma> \<longrightarrow> d dvd \<sigma> v)"
  proof (intro impI allI)
    fix \<sigma>
    assume r: "r = Inr True" and c: "consistent g \<sigma>"
    from c have ok: "node_ok g \<sigma> v" by (simp add: consistent_def)
    have pos: "\<not> fuel \<le> 0"
    proof
      assume "fuel \<le> 0"
      with body r show False by simp
    qed
    show "d dvd \<sigma> v"
    proof (cases "g v")
      case (AssumeMultipleOp x m)
      with body pos r have "rem_is_zero m d = Inr True" by simp
      then have "d dvd m" by (rule rem_is_zero_True)
      moreover from ok AssumeMultipleOp have "m dvd \<sigma> v" by (simp add: node_ok_def)
      ultimately show ?thesis by (rule dvd_trans)
    next
      case (MulIOp lhs rhs)
      with ok have v: "\<sigma> v = \<sigma> lhs * \<sigma> rhs" by (simp add: node_ok_def)
      from body pos MulIOp obtain r1 where
        r1: "f g rhs d (fuel div 2) = Some r1"
        and rest: "(case r1 of Inl e \<Rightarrow> Some (Inl e)
              | Inr b \<Rightarrow> if b then Some (Inr True)
                  else if INT64_MAX < fuel + 1 then Some (Inl SignedOverflow)
                  else f g lhs d ((fuel + 1) div 2)) = Some r"
        by (simp add: bind_eq_Some_conv) blast
      show ?thesis
      proof (cases "r1 = Inr True")
        case True
        with IH [OF r1] c have "d dvd \<sigma> rhs" by blast
        with v show ?thesis by simp
      next
        case False
        with rest r have "f g lhs d ((fuel + 1) div 2) = Some (Inr True)"
          by (cases r1) (simp_all split: if_splits)
        from IH [OF this] c have "d dvd \<sigma> lhs" by blast
        with v show ?thesis by simp
      qed
    next
      case (ConstantOp a)
      show ?thesis
      proof (cases a)
        case (IntegerAttr k)
        with body pos r ConstantOp have "rem_is_zero k d = Inr True" by simp
        then have "d dvd k" by (rule rem_is_zero_True)
        with ok ConstantOp IntegerAttr show ?thesis by (simp add: node_ok_def)
      next
        case OtherAttr
        with body pos r ConstantOp show ?thesis by simp
      qed
    next
      case (IndexCastOp x)
      with body pos have "f g x d (fuel - 1) = Some r" by simp
      from IH [OF this] r c have "d dvd \<sigma> x" by blast
      with ok IndexCastOp show ?thesis by (simp add: node_ok_def)
    next
      case OtherOp
      with body pos r show ?thesis by simp
    qed
  qed
qed

text \<open>
  C2. Soundness: whenever isGuaranteedDivisible returns true for a value \<open>v\<close>, a divisor
  \<open>d\<close> (positive or not) and any fuel, every integer assignment that is consistent with
  the graph (products, casts and constants computed over the integers, annotations
  honest) gives \<open>v\<close> a value divisible by \<open>d\<close>. So it never returns true for a value that
  some consistent assignment makes indivisible. The graph may hold opaque nodes as well;
  they are unconstrained.
\<close>

theorem isGuaranteedDivisible_sound:
  assumes "isGuaranteedDivisible g v d fuel = Some (Inr True)"
    and "consistent g \<sigma>"
  shows "d dvd \<sigma> v"
  using isGD_sound_aux [OF assms(1)] assms(2) by blast

lemma consistent_six_times_x:
  "consistent six_times_x (\<lambda>v. if v = 0 then 5 else if v = 1 then 6 else 30)"
  by (simp add: consistent_def node_ok_def six_times_x_def graph_of_def)

theorem isGuaranteedDivisible_sound_witness:
  "isGuaranteedDivisible six_times_x 2 3 2 = Some (Inr True) \<and>
   consistent six_times_x (\<lambda>v. if v = 0 then 5 else if v = 1 then 6 else 30) \<and>
   (3::int) dvd (\<lambda>v. if v = 0 then 5 else if v = 1 then 6 else 30) (2::nat)"
proof -
  have run: "isGuaranteedDivisible six_times_x 2 3 2 = Some (Inr True)"
    by (simp add: isGuaranteedDivisible.simps six_times_x_def graph_of_def
        rem_is_zero_def rem64_def INT64_MAX_def INT64_MIN_def)
  from isGuaranteedDivisible_sound [OF run consistent_six_times_x]
  show ?thesis using run consistent_six_times_x by simp
qed

subsection \<open>Fuel monotonicity\<close>

lemma isGD_nofault:
  assumes "wf (operand_edges g)" and "0 < d"
  shows "fuel < INT64_MAX \<Longrightarrow> \<exists>b. isGuaranteedDivisible g v d fuel = Some (Inr b)"
  using assms(1)
proof (induction v arbitrary: fuel rule: wf_induct_rule)
  case (less v)
  have IH: "\<And>x fl. x \<in> set (operands (g v)) \<Longrightarrow> fl < INT64_MAX \<Longrightarrow>
     \<exists>b. isGuaranteedDivisible g x d fl = Some (Inr b)"
    using less.IH by (simp add: operand_edges_def)
  note lt = \<open>fuel < INT64_MAX\<close>
  show ?case
  proof (cases "0 < fuel")
    case False
    then show ?thesis by (auto simp: isGD_no_fuel)
  next
    case pos: True
    show ?thesis
    proof (cases "g v")
      case (AssumeMultipleOp x m)
      with pos \<open>0 < d\<close> show ?thesis by (simp add: isGD_assume rem_is_zero_pos)
    next
      case (ConstantOp a)
      with pos \<open>0 < d\<close> show ?thesis
        by (cases a) (auto simp: isGD_const_int isGD_const_other rem_is_zero_pos)
    next
      case OtherOp
      with pos show ?thesis by (auto simp: isGD_other)
    next
      case (IndexCastOp x)
      from lt have "fuel - 1 < INT64_MAX" by simp
      from IH [OF _ this, of x] IndexCastOp pos show ?thesis by (simp add: isGD_cast)
    next
      case (MulIOp lhs rhs)
      from lt pos have "fuel div 2 < INT64_MAX" by linarith
      from IH [OF _ this, of rhs] MulIOp obtain br where
        br: "isGuaranteedDivisible g rhs d (fuel div 2) = Some (Inr br)" by auto
      from lt pos have "(fuel + 1) div 2 < INT64_MAX" by linarith
      from IH [OF _ this, of lhs] MulIOp obtain bl where
        bl: "isGuaranteedDivisible g lhs d ((fuel + 1) div 2) = Some (Inr bl)" by auto
      from lt have "\<not> INT64_MAX < fuel + 1" by simp
      then show ?thesis
        by (auto simp: isGD_mul [where g = g and v = v, OF pos MulIOp] br bl)
    qed
  qed
qed

lemma isGD_mono_wf:
  assumes "wf (operand_edges g)" and "0 < d"
  shows "f1 \<le> f2 \<Longrightarrow> f2 < INT64_MAX \<Longrightarrow>
     isGuaranteedDivisible g v d f1 = Some (Inr True) \<Longrightarrow>
     isGuaranteedDivisible g v d f2 = Some (Inr True)"
  using assms(1)
proof (induction v arbitrary: f1 f2 rule: wf_induct_rule)
  case (less v)
  have IH: "\<And>x a b. x \<in> set (operands (g v)) \<Longrightarrow> a \<le> b \<Longrightarrow> b < INT64_MAX \<Longrightarrow>
     isGuaranteedDivisible g x d a = Some (Inr True) \<Longrightarrow>
     isGuaranteedDivisible g x d b = Some (Inr True)"
    using less.IH by (simp add: operand_edges_def)
  note le = \<open>f1 \<le> f2\<close> and lt = \<open>f2 < INT64_MAX\<close>
    and t = \<open>isGuaranteedDivisible g v d f1 = Some (Inr True)\<close>
  from t have f1: "0 < f1" by (rule isGD_True_fuel)
  with le have f2: "0 < f2" by simp
  show ?case
  proof (cases "g v")
    case (AssumeMultipleOp x m)
    with f1 f2 t show ?thesis by (simp add: isGD_assume)
  next
    case (ConstantOp a)
    with f1 f2 t show ?thesis
      by (cases a) (simp_all add: isGD_const_int isGD_const_other)
  next
    case OtherOp
    with f1 t show ?thesis by (simp add: isGD_other)
  next
    case (IndexCastOp x)
    from le lt have "f1 - 1 \<le> f2 - 1" "f2 - 1 < INT64_MAX" by simp_all
    from IH [OF _ this] IndexCastOp f1 f2 t show ?thesis
      by (simp add: isGD_cast)
  next
    case (MulIOp lhs rhs)
    from le have r1: "f1 div 2 \<le> f2 div 2" by (simp add: zdiv_mono1)
    from lt f2 have r2: "f2 div 2 < INT64_MAX" by linarith
    from le have l1: "(f1 + 1) div 2 \<le> (f2 + 1) div 2" by (simp add: zdiv_mono1)
    from lt f2 have l2: "(f2 + 1) div 2 < INT64_MAX" by linarith
    from isGD_nofault [OF assms r2] obtain br where
      br: "isGuaranteedDivisible g rhs d (f2 div 2) = Some (Inr br)" by blast
    from lt have no: "\<not> INT64_MAX < f2 + 1" by simp
    from t have "isGuaranteedDivisible g rhs d (f1 div 2) = Some (Inr True) \<or>
        isGuaranteedDivisible g lhs d ((f1 + 1) div 2) = Some (Inr True)"
      by (auto simp: isGD_mul [where g = g and v = v, OF f1 MulIOp]
          split: option.splits sum.splits if_splits)
    then show ?thesis
    proof
      assume "isGuaranteedDivisible g rhs d (f1 div 2) = Some (Inr True)"
      from IH [OF _ r1 r2 this] MulIOp show ?thesis
        by (simp add: isGD_mul [where g = g and v = v, OF f2 MulIOp])
    next
      assume "isGuaranteedDivisible g lhs d ((f1 + 1) div 2) = Some (Inr True)"
      from IH [OF _ l1 l2 this] MulIOp br no show ?thesis
        by (simp add: isGD_mul [where g = g and v = v, OF f2 MulIOp])
    qed
  qed
qed

text \<open>
  Below the overflow of \<open>fuel + 1\<close> the prover is monotone in the fuel: in a finite
  acyclic expression graph, for every value, every positive divisor and all fuels
  \<open>f1 \<le> f2\<close> with \<open>f2\<close> below \<open>INT64_MAX\<close>, a true verdict with fuel \<open>f1\<close> is a true verdict
  with fuel \<open>f2\<close>.
\<close>

lemma fuel_monotone_below_max:
  assumes "dag g" and "0 < d" and "f1 \<le> f2" and "f2 < INT64_MAX"
    and "isGuaranteedDivisible g v d f1 = Some (Inr True)"
  shows "isGuaranteedDivisible g v d f2 = Some (Inr True)"
  using isGD_mono_wf [OF dag_wf [OF assms(1)] assms(2) assms(3) assms(4) assms(5)] .

lemma fuel_monotone_below_max_example:
  "dag six_times_x \<and> (0::int) < 6 \<and> (2::int) \<le> 9 \<and> 9 < INT64_MAX \<and>
   isGuaranteedDivisible six_times_x 2 6 2 = Some (Inr True) \<and>
   isGuaranteedDivisible six_times_x 2 6 9 = Some (Inr True)"
proof -
  have run: "isGuaranteedDivisible six_times_x 2 6 2 = Some (Inr True)"
    by (simp add: isGuaranteedDivisible.simps six_times_x_def graph_of_def
        rem_is_zero_def rem64_def INT64_MAX_def INT64_MIN_def)
  have pos: "(0::int) < 6" and le: "(2::int) \<le> 9" and lt: "9 < INT64_MAX"
    by (simp_all add: INT64_MAX_def)
  from fuel_monotone_below_max [OF dag_six_times_x pos le lt run]
  show ?thesis using dag_six_times_x run lt by simp
qed

text \<open>
  C5. Fuel monotonicity (for all fuels \<open>f1 \<le> f2\<close>, a true verdict with \<open>f1\<close> is a true
  verdict with \<open>f2\<close>) is what the split of the fuel into \<open>fuel / 2\<close> and \<open>(fuel + 1) / 2\<close>
  gives over the integers, and the code breaks it at the largest fuel. For
  \<open>constant(6) * x\<close> and divisor 6 the prover returns true with fuel 2 (the right operand
  \<open>x\<close> is opaque, the left one is the constant), and still with fuel \<open>INT64_MAX - 1\<close>. With
  fuel \<open>INT64_MAX\<close> the right operand fails the same way, and line 197 then computes
  \<open>fuel + 1\<close>, which overflows \<open>int64_t\<close>: the call has no defined result and does not
  return true (where the sum wraps around, the left call gets a negative fuel and the
  verdict is false).
\<close>

theorem fuel_monotone_fails_at_INT64_MAX:
  "(2::int) \<le> 9223372036854775807 \<and>
   isGuaranteedDivisible six_times_x 2 6 2 = Some (Inr True) \<and>
   isGuaranteedDivisible six_times_x 2 6 9223372036854775806 = Some (Inr True) \<and>
   isGuaranteedDivisible six_times_x 2 6 9223372036854775807 = Some (Inl SignedOverflow)"
  by (simp add: isGuaranteedDivisible.simps six_times_x_def graph_of_def
      rem_is_zero_def rem64_def INT64_MAX_def INT64_MIN_def)

subsection \<open>The concrete scenario\<close>

text \<open>
  C7, as stated, fails: for \<open>v = castToIndex(mul(constant(3), mul(constant(4), y)))\<close> with
  \<open>y\<close> opaque, divisor 12 and fuel 4 the prover returns false. It asks of each factor
  alone whether it is a multiple of the divisor and never multiplies constants: neither
  3 nor 4 is a multiple of 12.
\<close>

theorem scenario_counterexample:
  "isGuaranteedDivisible (scenario OtherOp) 5 12 4 = Some (Inr False)"
  by (simp add: isGuaranteedDivisible.simps scenario_def graph_of_def
      rem_is_zero_def rem64_def INT64_MAX_def INT64_MIN_def)

text \<open>
  C7, amended. For that \<open>v\<close>, whatever defines \<open>y\<close>, isGuaranteedDivisible returns false
  for divisor 12 with fuel 4, and false for divisor 24 with fuel 4 (with fuel 4 the
  search reaches \<open>y\<close> with no fuel left).
\<close>

theorem scenario_not_proven:
  "isGuaranteedDivisible (scenario yop) 5 12 4 = Some (Inr False) \<and>
   isGuaranteedDivisible (scenario yop) 5 24 4 = Some (Inr False)"
  by (simp add: isGuaranteedDivisible.simps scenario_def graph_of_def
      rem_is_zero_def rem64_def INT64_MAX_def INT64_MIN_def)

subsection \<open>Constants that are not integers\<close>

text \<open>
  C10. If the defining operation of \<open>v\<close> is a constant whose value attribute is not an
  integer attribute, then for every divisor (zero included) and every positive fuel the
  prover returns false: no fault, and no claim of divisibility.
\<close>

theorem non_integer_constant_not_proven:
  assumes "g v = ConstantOp a" and "\<forall>c. a \<noteq> IntegerAttr c" and "0 < fuel"
  shows "isGuaranteedDivisible g v divisor fuel = Some (Inr False)"
proof -
  from assms(2) have "a = OtherAttr" by (cases a) simp_all
  with assms(1) assms(3) show ?thesis by (simp add: isGD_const_other)
qed

theorem non_integer_constant_not_proven_witness:
  "float_constant 0 = ConstantOp OtherAttr \<and> (\<forall>c. OtherAttr \<noteq> IntegerAttr c) \<and> (0::int) < 7 \<and>
   isGuaranteedDivisible float_constant 0 0 7 = Some (Inr False)"
proof -
  have op: "float_constant 0 = ConstantOp OtherAttr"
    by (simp add: float_constant_def graph_of_def)
  have na: "\<forall>c. OtherAttr \<noteq> IntegerAttr c" by simp
  have pos: "(0::int) < 7" by simp
  from non_integer_constant_not_proven [where g = float_constant and v = 0 and divisor = 0, OF op na pos]
  show ?thesis using op by simp
qed

section \<open>Properties of getAffineMap\<close>

subsection \<open>Arities\<close>

lemma length_tile_exprs: "length (tile_exprs u dims) = u + 2 * length dims"
  by (simp add: tile_exprs_def)

lemma tile_step_Inr:
  assumes "tile_step m tile = Inr m'"
  shows "numDims m' = numDims m"
    and "getNumResults m' = getNumResults m + length (dimensions tile)"
    and "0 \<le> untiled_dims_of m tile"
proof -
  from assms have u: "0 \<le> untiled_dims_of m tile"
    and m': "m' = compose (tile_map_of m tile) m"
    by (auto simp: tile_step_def split: if_splits)
  show "0 \<le> untiled_dims_of m tile" by (rule u)
  show "numDims m' = numDims m" by (simp add: m' compose_def)
  from u have "nat (untiled_dims_of m tile) + 2 * length (dimensions tile)
      = getNumResults m + length (dimensions tile)"
    by (simp add: untiled_dims_of_def)
  then show "getNumResults m' = getNumResults m + length (dimensions tile)"
    by (simp add: m' compose_def tile_map_of_def getNumResults_def length_tile_exprs)
qed

lemma tile_loop_arity:
  "tile_loop m ts = Inr m' \<Longrightarrow>
     numDims m' = numDims m \<and>
     getNumResults m' = getNumResults m + sum_list (map (\<lambda>t. length (dimensions t)) ts)"
proof (induction ts arbitrary: m)
  case Nil
  then show ?case by simp
next
  case (Cons t ts)
  from Cons.prems obtain m1 where s: "tile_step m t = Inr m1" and l: "tile_loop m1 ts = Inr m'"
    by (auto split: sum.splits)
  from Cons.IH [OF l] tile_step_Inr(1,2) [OF s] show ?case by simp
qed

text \<open>
  C4, as stated, fails: every tile of rank \<open>k\<close> adds \<open>k\<close> results (it turns \<open>k\<close> dimensions
  into \<open>k\<close> quotients and \<open>k\<close> remainders). For \<open><(8,128),[1,8]>\<close> the stride list has length
  2, the only \<open>untiled_dims\<close> is 0, and the composed map has 4 results.
\<close>

theorem affine_map_rank_counterexample:
  "length (tile_strides layout_8x128) = 2 \<and>
   untiled_dims_trace (getMultiDimIdentityMap 2) (tiles layout_8x128) = [0] \<and>
   map_sum id getNumResults (getAffineMap layout_8x128) = Inr 4"
  by (simp add: layout_8x128_def getAffineMap_def getMultiDimIdentityMap_def tile_step_def
      tile_map_of_def untiled_dims_of_def tile_exprs_def compose_def getNumResults_def
      upt_rec numeral_2_eq_2)

text \<open>
  C4, amended. For a descriptor with stride-list length \<open>R\<close> and tiles of ranks
  \<open>k\<^sub>1, ..., k\<^sub>n\<close> for which getAffineMap does not take the fatal branch (every
  \<open>untiled_dims\<close> is non-negative), the composed map has input arity \<open>R\<close> and output arity
  \<open>R + k\<^sub>1 + ... + k\<^sub>n\<close>.
\<close>

theorem affine_map_rank:
  assumes "getAffineMap a = Inr m"
  shows "numDims m = length (tile_strides a) \<and>
         getNumResults m = length (tile_strides a) + sum_list (tile_ranks a)"
  using tile_loop_arity [OF assms [unfolded getAffineMap_def]]
  by (simp add: getMultiDimIdentityMap_def getNumResults_def tile_ranks_def)

lemma getAffineMap_layout_2_3:
  "getAffineMap layout_2_3 =
     Inr \<lparr>numDims = 1,
          results = [FloorDiv (AffineDimExpr 0) 2,
                     FloorDiv (Mod (AffineDimExpr 0) 2) 3,
                     Mod (Mod (AffineDimExpr 0) 2) 3]\<rparr>"
  by (simp add: layout_2_3_def getAffineMap_def getMultiDimIdentityMap_def tile_step_def
      tile_map_of_def untiled_dims_of_def tile_exprs_def compose_def getNumResults_def
      upt_rec numeral_2_eq_2)

theorem affine_map_rank_witness:
  "getAffineMap layout_2_3 =
     Inr \<lparr>numDims = 1,
          results = [FloorDiv (AffineDimExpr 0) 2,
                     FloorDiv (Mod (AffineDimExpr 0) 2) 3,
                     Mod (Mod (AffineDimExpr 0) 2) 3]\<rparr> \<and>
   length (tile_strides layout_2_3) = 1 \<and> sum_list (tile_ranks layout_2_3) = 2 \<and>
   getNumResults \<lparr>numDims = 1,
          results = [FloorDiv (AffineDimExpr 0) 2,
                     FloorDiv (Mod (AffineDimExpr 0) 2) 3,
                     Mod (Mod (AffineDimExpr 0) 2) 3]\<rparr> = 1 + 2"
  using affine_map_rank [OF getAffineMap_layout_2_3] getAffineMap_layout_2_3
  by (simp add: layout_2_3_def tile_ranks_def)

subsection \<open>The fatal branch\<close>

lemma tile_loop_fatal_iff:
  "tile_loop m ts = Inl Invalid_TiledLayoutAttr \<longleftrightarrow> (\<exists>u \<in> set (untiled_dims_trace m ts). u < 0)"
proof (induction ts arbitrary: m)
  case Nil
  show ?case by simp
next
  case (Cons t ts)
  show ?case
  proof (cases "tile_step m t")
    case (Inl e)
    then have "untiled_dims_of m t < 0" by (auto simp: tile_step_def split: if_splits)
    with Inl show ?thesis by (cases e) simp
  next
    case (Inr m1)
    from tile_step_Inr(3) [OF Inr] have "\<not> untiled_dims_of m t < 0" by simp
    with Inr Cons.IH [of m1] show ?thesis by simp
  qed
qed

text \<open>
  C6. getAffineMap fails fatally exactly when, for some tile the loop reaches,
  \<open>untiled_dims\<close> = (current number of results) - (tile rank) is negative. Read from left
  to right: a negative \<open>untiled_dims\<close> is fatal; from right to left: a descriptor whose
  tiles keep it non-negative at every step never takes the fatal branch.
\<close>

theorem getAffineMap_fatal_iff:
  "getAffineMap a = Inl Invalid_TiledLayoutAttr \<longleftrightarrow>
     (\<exists>u \<in> set (untiled_dims_trace (getMultiDimIdentityMap (length (tile_strides a))) (tiles a)).
        u < 0)"
  unfolding getAffineMap_def by (rule tile_loop_fatal_iff)

theorem getAffineMap_fatal_iff_witness:
  "getAffineMap layout_bad = Inl Invalid_TiledLayoutAttr \<and>
   untiled_dims_trace (getMultiDimIdentityMap (length (tile_strides layout_bad))) (tiles layout_bad)
     = [- 1] \<and>
   getAffineMap layout_2_3 \<noteq> Inl Invalid_TiledLayoutAttr \<and>
   untiled_dims_trace (getMultiDimIdentityMap (length (tile_strides layout_2_3))) (tiles layout_2_3)
     = [0, 1]"
proof -
  have bad: "untiled_dims_trace (getMultiDimIdentityMap (length (tile_strides layout_bad)))
      (tiles layout_bad) = [- 1]"
    by (simp add: layout_bad_def getMultiDimIdentityMap_def tile_step_def untiled_dims_of_def
        getNumResults_def)
  have good: "untiled_dims_trace (getMultiDimIdentityMap (length (tile_strides layout_2_3)))
      (tiles layout_2_3) = [0, 1]"
    by (simp add: layout_2_3_def getMultiDimIdentityMap_def tile_step_def untiled_dims_of_def
        tile_map_of_def tile_exprs_def compose_def getNumResults_def)
  from bad getAffineMap_fatal_iff [of layout_bad]
  have "getAffineMap layout_bad = Inl Invalid_TiledLayoutAttr" by simp
  moreover from good getAffineMap_fatal_iff [of layout_2_3]
  have "getAffineMap layout_2_3 \<noteq> Inl Invalid_TiledLayoutAttr" by simp
  ultimately show ?thesis using bad good by simp
qed

text \<open>
  The same in terms of the descriptor alone: the number of results before tile \<open>i\<close> is the
  stride-list length plus the ranks of the tiles before it, so the fatal branch is taken
  exactly when some tile's rank exceeds that number.
\<close>

lemma tile_step_Inl_iff:
  "tile_step m t = Inl Invalid_TiledLayoutAttr \<longleftrightarrow> getNumResults m < length (dimensions t)"
  by (auto simp: tile_step_def untiled_dims_of_def)

lemma tile_loop_fatal_ranks:
  "tile_loop m ts = Inl Invalid_TiledLayoutAttr \<longleftrightarrow>
     (\<exists>i<length ts. getNumResults m + (\<Sum>j<i. length (dimensions (ts ! j)))
        < length (dimensions (ts ! i)))"
proof (induction ts arbitrary: m)
  case Nil
  show ?case by simp
next
  case (Cons t ts)
  show ?case
  proof (cases "tile_step m t")
    case (Inl e)
    then have "getNumResults m < length (dimensions t)"
      by (cases e) (simp add: tile_step_Inl_iff)
    then have "\<exists>i<length (t # ts). getNumResults m + (\<Sum>j<i. length (dimensions ((t # ts) ! j)))
        < length (dimensions ((t # ts) ! i))"
      by (intro exI [of _ 0]) simp
    with Inl show ?thesis by (cases e) simp
  next
    case (Inr m1)
    then have ok: "\<not> getNumResults m < length (dimensions t)"
      using tile_step_Inl_iff [of m t] by simp
    have n1: "getNumResults m1 = getNumResults m + length (dimensions t)"
      by (rule tile_step_Inr(2) [OF Inr])
    have "tile_loop m (t # ts) = Inl Invalid_TiledLayoutAttr \<longleftrightarrow>
        tile_loop m1 ts = Inl Invalid_TiledLayoutAttr"
      using Inr by simp
    also have "\<dots> \<longleftrightarrow> (\<exists>i<length ts. getNumResults m1 + (\<Sum>j<i. length (dimensions (ts ! j)))
        < length (dimensions (ts ! i)))"
      by (rule Cons.IH)
    also have "\<dots> \<longleftrightarrow> (\<exists>i<length (t # ts). getNumResults m + (\<Sum>j<i. length (dimensions ((t # ts) ! j)))
        < length (dimensions ((t # ts) ! i)))"
    proof -
      have shift: "(\<Sum>j<Suc i. length (dimensions ((t # ts) ! j)))
          = length (dimensions t) + (\<Sum>j<i. length (dimensions (ts ! j)))" for i
        by (simp add: sum.lessThan_Suc_shift del: sum.lessThan_Suc)
      show ?thesis
        using ok by (simp add: Ex_less_Suc2 shift n1 add.assoc del: sum.lessThan_Suc)
    qed
    finally show ?thesis .
  qed
qed

lemma getAffineMap_fatal_ranks:
  "getAffineMap a = Inl Invalid_TiledLayoutAttr \<longleftrightarrow>
     (\<exists>i<length (tiles a).
        length (tile_strides a) + (\<Sum>j<i. length (dimensions (tiles a ! j)))
          < length (dimensions (tiles a ! i)))"
  unfolding getAffineMap_def tile_loop_fatal_ranks
  by (simp add: getMultiDimIdentityMap_def getNumResults_def)

subsection \<open>Composition order\<close>

lemma eval_replaceDims:
  "dims_below (length rs) e \<Longrightarrow>
     eval_expr xs (replaceDims rs e) = eval_expr (map (eval_expr xs) rs) e"
  by (induction e) simp_all

lemma dims_below_tile_exprs:
  "e \<in> set (tile_exprs u dims) \<Longrightarrow> dims_below (u + length dims) e"
  by (auto simp: tile_exprs_def)

lemma apply_compose:
  assumes "\<And>e. e \<in> set (results f) \<Longrightarrow> dims_below (numDims f) e"
    and "numDims f = length (results m)"
  shows "apply_map (compose f m) xs = Option.bind (apply_map m xs) (apply_map f)"
  using assms by (simp add: apply_map_def compose_def eval_replaceDims)

text \<open>
  C3, as stated, fails. In the second iteration for \<open><(2)(3),[1]>\<close> the map so far is
  \<open>(d0) -> (d0 floordiv 2, d0 mod 2)\<close> and the new per-tile map is
  \<open>(d0, d1) -> (d0, d1 floordiv 3, d1 mod 3)\<close>. The composed map sends the index 5 to
  \<open>(2, 0, 1)\<close>. Applying the new map first is not even possible: it takes two indices,
  and its three results cannot feed the one input of the map so far.
\<close>

theorem composition_order_counterexample:
  "tile_step map_after_2 \<lparr>dimensions = [3]\<rparr> =
     Inr \<lparr>numDims = 1,
          results = [FloorDiv (AffineDimExpr 0) 2,
                     FloorDiv (Mod (AffineDimExpr 0) 2) 3,
                     Mod (Mod (AffineDimExpr 0) 2) 3]\<rparr> \<and>
   apply_map \<lparr>numDims = 1,
          results = [FloorDiv (AffineDimExpr 0) 2,
                     FloorDiv (Mod (AffineDimExpr 0) 2) 3,
                     Mod (Mod (AffineDimExpr 0) 2) 3]\<rparr> [5] = Some [2, 0, 1] \<and>
   Option.bind (apply_map (tile_map_of map_after_2 \<lparr>dimensions = [3]\<rparr>) [5])
     (apply_map map_after_2) = None \<and>
   numDims (tile_map_of map_after_2 \<lparr>dimensions = [3]\<rparr>) = 2 \<and>
   getNumResults (tile_map_of map_after_2 \<lparr>dimensions = [3]\<rparr>) = 3 \<and>
   numDims map_after_2 = 1"
  by (simp add: map_after_2_def tile_step_def tile_map_of_def untiled_dims_of_def
      tile_exprs_def compose_def getNumResults_def apply_map_def upt_rec)

text \<open>
  C3, amended. For every tile processed, the per-tile map built at that step is composed
  with the transform accumulated so far such that the accumulated transform is applied
  first: its outputs feed the inputs of the new per-tile map.
\<close>

theorem composition_order:
  assumes "tile_step m tile = Inr m'"
  shows "apply_map m' xs = Option.bind (apply_map m xs) (apply_map (tile_map_of m tile))"
proof -
  from assms have u: "0 \<le> untiled_dims_of m tile"
    and m': "m' = compose (tile_map_of m tile) m"
    by (auto simp: tile_step_def split: if_splits)
  from u have n: "nat (untiled_dims_of m tile) + length (dimensions tile) = getNumResults m"
    by (simp add: untiled_dims_of_def)
  have "\<And>e. e \<in> set (results (tile_map_of m tile)) \<Longrightarrow> dims_below (numDims (tile_map_of m tile)) e"
    using dims_below_tile_exprs [of _ "nat (untiled_dims_of m tile)" "dimensions tile"] n
    by (simp add: tile_map_of_def)
  moreover have "numDims (tile_map_of m tile) = length (results m)"
    by (simp add: tile_map_of_def getNumResults_def)
  ultimately show ?thesis
    unfolding m' by (rule apply_compose)
qed

lemma tile_step_map_after_2:
  "tile_step map_after_2 \<lparr>dimensions = [3]\<rparr> =
     Inr \<lparr>numDims = 1,
          results = [FloorDiv (AffineDimExpr 0) 2,
                     FloorDiv (Mod (AffineDimExpr 0) 2) 3,
                     Mod (Mod (AffineDimExpr 0) 2) 3]\<rparr>"
  by (simp add: map_after_2_def tile_step_def tile_map_of_def untiled_dims_of_def
      tile_exprs_def compose_def getNumResults_def upt_rec)

theorem composition_order_witness:
  "tile_step map_after_2 \<lparr>dimensions = [3]\<rparr> =
     Inr \<lparr>numDims = 1,
          results = [FloorDiv (AffineDimExpr 0) 2,
                     FloorDiv (Mod (AffineDimExpr 0) 2) 3,
                     Mod (Mod (AffineDimExpr 0) 2) 3]\<rparr> \<and>
   apply_map map_after_2 [5] = Some [2, 1] \<and>
   apply_map (tile_map_of map_after_2 \<lparr>dimensions = [3]\<rparr>) [2, 1] = Some [2, 0, 1] \<and>
   apply_map \<lparr>numDims = 1,
          results = [FloorDiv (AffineDimExpr 0) 2,
                     FloorDiv (Mod (AffineDimExpr 0) 2) 3,
                     Mod (Mod (AffineDimExpr 0) 2) 3]\<rparr> [5] = Some [2, 0, 1]"
proof -
  have a: "apply_map map_after_2 [5] = Some [2, 1]"
    by (simp add: map_after_2_def apply_map_def)
  have b: "apply_map (tile_map_of map_after_2 \<lparr>dimensions = [3]\<rparr>) [2, 1] = Some [2, 0, 1]"
    by (simp add: map_after_2_def tile_map_of_def untiled_dims_of_def tile_exprs_def
        getNumResults_def apply_map_def upt_rec)
  from composition_order [OF tile_step_map_after_2, of "[5]"] a b
  show ?thesis using tile_step_map_after_2 by simp
qed

section \<open>Properties of the text form\<close>

subsection \<open>Printing and lexing numbers\<close>

lemma digit_char_props:
  assumes "d < 10"
  shows "is_digit (digit_char d)" and "digit_val (digit_char d) = d"
proof -
  from assms have "(48 + d) mod 256 = 48 + d" by simp
  then have code: "(of_char (digit_char d) :: nat) = 48 + d"
    by (simp add: digit_char_def)
  from code assms show "is_digit (digit_char d)" by (simp add: is_digit_def)
  from code show "digit_val (digit_char d) = d" by (simp add: digit_val_def)
qed

lemma lexer_digit:
  "d < 10 \<Longrightarrow>
     lexer p (digit_char d # cs) = lexer (Some (10 * (case p of None \<Rightarrow> 0 | Some n \<Rightarrow> n) + d)) cs"
  by (simp add: digit_char_props)

lemma lexer_digits:
  "lexer p (digits n @ cs) =
     lexer (Some ((case p of None \<Rightarrow> 0 | Some m \<Rightarrow> m) * 10 ^ length (digits n) + n)) cs"
proof (induction n arbitrary: cs rule: digits.induct)
  case (1 n)
  show ?case
  proof (cases "n < 10")
    case True
    then have d: "digits n = [digit_char n]"
      by (subst digits.simps) simp
    show ?thesis
      unfolding d using lexer_digit [OF True, of p cs] by (simp add: mult.commute)
  next
    case False
    have d: "digits n = digits (n div 10) @ [digit_char (n mod 10)]"
      using False by (subst digits.simps) simp
    have "lexer p (digits n @ cs) = lexer p (digits (n div 10) @ digit_char (n mod 10) # cs)"
      by (simp add: d)
    also have "\<dots> = lexer (Some ((case p of None \<Rightarrow> 0 | Some m \<Rightarrow> m)
        * 10 ^ length (digits (n div 10)) + n div 10)) (digit_char (n mod 10) # cs)"
      by (rule "1.IH" [OF False])
    also have "\<dots> = lexer (Some (10 * ((case p of None \<Rightarrow> 0 | Some m \<Rightarrow> m)
        * 10 ^ length (digits (n div 10)) + n div 10) + n mod 10)) cs"
      by (subst lexer_digit) simp_all
    also have "10 * ((case p of None \<Rightarrow> 0 | Some m \<Rightarrow> m)
        * 10 ^ length (digits (n div 10)) + n div 10) + n mod 10
        = (case p of None \<Rightarrow> 0 | Some m \<Rightarrow> m) * 10 ^ length (digits n) + n"
      by (simp add: d algebra_simps)
    finally show ?thesis .
  qed
qed

lemma closes_number_props:
  assumes "closes_number c"
  shows "\<not> is_digit c" and "\<not> is_space c" and "punct c \<noteq> LParen"
    and "punct c = Comma \<or> punct c = RParen \<or> punct c = RSquare"
  using assms by (auto simp: closes_number_def is_digit_def is_space_def punct_def)

lemma lexer_number:
  "closes_number c \<Longrightarrow> lexer None (digits n @ c # cs) = Integer n # punct c # lexer None cs"
  by (simp add: lexer_digits closes_number_props flush_def)

lemma lexer_print_int64:
  assumes "closes_number c"
  shows "lexer None (print_int64 w @ c # cs) = int64_tokens w @ punct c # lexer None cs"
proof (cases "sint w < 0")
  case True
  have "lexer None (CHR ''-'' # digits (nat (- sint w)) @ c # cs)
      = Minus # lexer None (digits (nat (- sint w)) @ c # cs)"
    by (simp add: is_digit_def is_space_def punct_def flush_def)
  with True assms show ?thesis
    by (simp add: print_int64_def int64_tokens_def lexer_number)
next
  case False
  with assms show ?thesis
    by (simp add: print_int64_def int64_tokens_def lexer_number)
qed

lemma int_toks_int64_tokens: "int_toks w (int64_tokens w)"
proof (cases "sint w < 0")
  case True
  have "- (2 ^ 63) \<le> sint w" using sint_ge [of w] by simp
  moreover have "- word_of_nat (nat (- sint w)) = w"
    using True by simp
  ultimately show ?thesis
    using True by (auto simp: int_toks_def int64_tokens_def INT64_MIN_def)
next
  case False
  have "sint w < 2 ^ 63" using sint_lt [of w] by simp
  moreover have "word_of_nat (nat (sint w)) = w"
    using False by simp
  ultimately show ?thesis
    using False by (auto simp: int_toks_def int64_tokens_def INT64_MAX_def)
qed

lemma lexer_closer: "closes_number c \<Longrightarrow> lexer None (c # cs) = punct c # lexer None cs"
  by (simp add: closes_number_props flush_def)

lemma lexer_print_int64_closer:
  "closes_number c \<Longrightarrow> lexer None (print_int64 w @ c # cs) = int64_tokens w @ lexer None (c # cs)"
  by (simp only: lexer_print_int64 lexer_closer)

subsection \<open>Lexing a printed descriptor\<close>

lemma comma_join_Cons: "comma_join (x # xs) = x @ concat (map (\<lambda>y. CHR '','' # y) xs)"
  by (induction xs arbitrary: x) simp_all

lemma print_strides_Suc:
  "print_strides (Suc i) ws = concat (map (\<lambda>y. CHR '','' # y) (map print_int64 ws))"
  by (induction ws arbitrary: i) simp_all

lemma print_strides_0:
  "print_strides 0 ws = comma_join (map print_int64 ws)"
  by (cases ws) (simp_all add: comma_join_Cons print_strides_Suc)

lemma more_text_head:
  assumes "closes_number c"
  shows "\<exists>c' cs'. closes_number c' \<and>
           concat (map (\<lambda>y. CHR '','' # y) (map print_int64 ws)) @ c # cs = c' # cs'"
  using assms by (cases ws) (auto simp: closes_number_def)

lemma lexer_more:
  assumes "closes_number c"
  shows "lexer None (concat (map (\<lambda>y. CHR '','' # y) (map print_int64 ws)) @ c # cs)
           = more_tokens ws @ lexer None (c # cs)"
proof (induction ws)
  case Nil
  show ?case by (simp add: more_tokens_def)
next
  case (Cons w ws)
  let ?tail = "concat (map (\<lambda>y. CHR '','' # y) (map print_int64 ws)) @ c # cs"
  from more_text_head [OF assms, of ws cs] obtain c' cs' where
    c': "closes_number c'" and tail: "?tail = c' # cs'" by blast
  have comma: "closes_number (CHR '','')" by (simp add: closes_number_def)
  have "lexer None (concat (map (\<lambda>y. CHR '','' # y) (map print_int64 (w # ws))) @ c # cs)
      = lexer None (CHR '','' # print_int64 w @ ?tail)"
    by simp
  also have "\<dots> = Comma # lexer None (print_int64 w @ ?tail)"
    by (simp only: lexer_closer [OF comma]) (simp add: punct_def)
  also have "lexer None (print_int64 w @ ?tail) = int64_tokens w @ lexer None ?tail"
    unfolding tail by (rule lexer_print_int64_closer [OF c'])
  also have "lexer None ?tail = more_tokens ws @ lexer None (c # cs)"
    by (rule Cons.IH)
  finally show ?case by (simp add: more_tokens_def)
qed

lemma lexer_list:
  assumes "closes_number c"
  shows "lexer None (comma_join (map print_int64 ws) @ c # cs)
           = list_tokens ws @ lexer None (c # cs)"
proof (cases ws)
  case Nil
  then show ?thesis by (simp add: list_tokens_def)
next
  case (Cons w rest)
  let ?tail = "concat (map (\<lambda>y. CHR '','' # y) (map print_int64 rest)) @ c # cs"
  from more_text_head [OF assms, of rest cs] obtain c' cs' where
    c': "closes_number c'" and tail: "?tail = c' # cs'" by blast
  have "lexer None (comma_join (map print_int64 ws) @ c # cs)
      = lexer None (print_int64 w @ ?tail)"
    by (simp add: Cons comma_join_Cons)
  also have "\<dots> = int64_tokens w @ lexer None ?tail"
    unfolding tail by (rule lexer_print_int64_closer [OF c'])
  also have "lexer None ?tail = more_tokens rest @ lexer None (c # cs)"
    by (rule lexer_more [OF assms])
  finally show ?thesis by (simp add: Cons list_tokens_def)
qed

lemma lexer_tile: "lexer None (Tile_ToString tile @ cs) = tile_tokens tile @ lexer None cs"
proof -
  have cl: "closes_number (CHR '')'')" by (simp add: closes_number_def)
  have "lexer None (Tile_ToString tile @ cs)
      = LParen # lexer None (comma_join (map print_int64 (dimensions tile)) @ CHR '')'' # cs)"
    by (simp add: Tile_ToString_def is_digit_def is_space_def punct_def flush_def)
  also have "lexer None (comma_join (map print_int64 (dimensions tile)) @ CHR '')'' # cs)
      = list_tokens (dimensions tile) @ lexer None (CHR '')'' # cs)"
    by (rule lexer_list [OF cl])
  also have "lexer None (CHR '')'' # cs) = RParen # lexer None cs"
    by (simp only: lexer_closer [OF cl]) (simp add: punct_def)
  finally show ?thesis by (simp add: tile_tokens_def)
qed

lemma lexer_tiles:
  "lexer None (concat (map Tile_ToString tls) @ cs) = concat (map tile_tokens tls) @ lexer None cs"
  by (induction tls) (simp_all add: lexer_tile)

lemma tokens_print: "tokens (print a) = descriptor_tokens a"
proof -
  have cl: "closes_number (CHR '']'')" by (simp add: closes_number_def)
  have "tokens (print a)
      = Less # lexer None (concat (map Tile_ToString (tiles a)) @
          '',['' @ print_strides 0 (tile_strides a) @ '']>'')"
    by (simp add: tokens_def print_def is_digit_def is_space_def punct_def flush_def)
  also have "lexer None (concat (map Tile_ToString (tiles a)) @
          '',['' @ print_strides 0 (tile_strides a) @ '']>'')
      = concat (map tile_tokens (tiles a)) @
          lexer None ('',['' @ print_strides 0 (tile_strides a) @ '']>'')"
    by (rule lexer_tiles)
  also have "lexer None ('',['' @ print_strides 0 (tile_strides a) @ '']>'')
      = Comma # LSquare # lexer None (comma_join (map print_int64 (tile_strides a)) @ '']>'')"
    by (simp add: print_strides_0 is_digit_def is_space_def punct_def flush_def)
  also have "lexer None (comma_join (map print_int64 (tile_strides a)) @ '']>'')
      = list_tokens (tile_strides a) @ lexer None '']>''"
    using lexer_list [OF cl, of "tile_strides a" "''>''"] by simp
  also have "lexer None '']>'' = [RSquare, Greater]"
    by (simp add: is_digit_def is_space_def punct_def flush_def)
  finally show ?thesis by (simp add: descriptor_tokens_def)
qed

subsection \<open>The printed tokens are a phrase of the grammar\<close>

lemma more_ints_more_tokens: "more_ints ws (more_tokens ws)"
proof (induction ws)
  case Nil
  show ?case by (simp add: more_tokens_def more_none)
next
  case (Cons w ws)
  from more_int [OF int_toks_int64_tokens Cons, of w] show ?case
    by (simp add: more_tokens_def)
qed

lemma int_list_list_tokens: "int_list ws (list_tokens ws)"
proof (cases ws)
  case Nil
  then show ?thesis by (simp add: list_tokens_def int_list_empty)
next
  case (Cons w rest)
  from int_list_some [OF int_toks_int64_tokens more_ints_more_tokens, of w rest]
  show ?thesis by (simp add: Cons list_tokens_def)
qed

lemma tile_seq_tile_tokens: "tile_seq tls (concat (map tile_tokens tls))"
proof (induction tls)
  case Nil
  show ?case by (simp add: tile_seq_empty)
next
  case (Cons t tls)
  obtain ds where t: "t = \<lparr>dimensions = ds\<rparr>" by (cases t)
  from tile_seq_tile [OF int_list_list_tokens Cons, of ds] show ?case
    by (simp add: tile_tokens_def t)
qed

lemma descriptor_descriptor_tokens: "descriptor a (descriptor_tokens a)"
  unfolding descriptor_def descriptor_tokens_def
  using tile_seq_tile_tokens [of "tiles a"] int_list_list_tokens [of "tile_strides a"]
  by blast

subsection \<open>The parser accepts every phrase of the grammar\<close>

lemma parseInteger_int_toks: "int_toks w a \<Longrightarrow> parseInteger (a @ r) = Some (w, r)"
  by (auto simp: int_toks_def parseInteger_def)

lemma expect_int_toks:
  "int_toks w a \<Longrightarrow> c = RParen \<or> c = RSquare \<Longrightarrow> expect c (a @ r) = None"
  by (auto simp: int_toks_def expect_def)

lemma parse_ints_more:
  assumes c: "c = RParen \<or> c = RSquare"
  shows "more_ints ws b \<Longrightarrow> parse_ints (expect c) False acc (b @ c # r) = Some (acc @ ws, r)"
proof (induction arbitrary: acc rule: more_ints.induct)
  case more_none
  show ?case by (subst parse_ints.simps) (simp add: expect_def)
next
  case (more_int w a ws b)
  have "expect c ((Comma # a @ b) @ c # r) = None"
    using c by (auto simp: expect_def)
  moreover have "parseComma ((Comma # a @ b) @ c # r) = Some (a @ b @ c # r)"
    by (simp add: parseComma_def expect_def)
  moreover have "parseInteger (a @ b @ c # r) = Some (w, b @ c # r)"
    by (rule parseInteger_int_toks [OF more_int.hyps(1)])
  moreover have "parse_ints (expect c) False (acc @ [w]) (b @ c # r) = Some ((acc @ [w]) @ ws, r)"
    by (rule more_int.IH)
  ultimately show ?case
    by (subst parse_ints.simps) simp
qed

lemma parse_ints_list:
  assumes c: "c = RParen \<or> c = RSquare" and l: "int_list ws b"
  shows "parse_ints (expect c) True acc (b @ c # r) = Some (acc @ ws, r)"
  using l
proof (cases rule: int_list.cases)
  case int_list_empty
  then show ?thesis by (subst parse_ints.simps) (simp add: expect_def)
next
  case (int_list_some w a ws' b')
  have "expect c (a @ b' @ c # r) = None"
    by (rule expect_int_toks [OF int_list_some(3) c])
  moreover have "parseInteger (a @ b' @ c # r) = Some (w, b' @ c # r)"
    by (rule parseInteger_int_toks [OF int_list_some(3)])
  moreover have "parse_ints (expect c) False (acc @ [w]) (b' @ c # r) = Some ((acc @ [w]) @ ws', r)"
    by (rule parse_ints_more [OF c int_list_some(4)])
  ultimately show ?thesis
    by (subst parse_ints.simps) (simp add: int_list_some(1,2))
qed

lemma parse_tiles_complete:
  "tile_seq tls b \<Longrightarrow> expect LParen r = None \<Longrightarrow> parse_tiles acc (b @ r) = Some (acc @ tls, r)"
proof (induction arbitrary: acc rule: tile_seq.induct)
  case tile_seq_empty
  then show ?case
    by (subst parse_tiles.simps) (simp add: parseOptionalLParen_def)
next
  case (tile_seq_tile ds a tls b)
  have "parse_ints (expect RParen) True [] (a @ RParen # b @ r) = Some ([] @ ds, b @ r)"
    by (rule parse_ints_list [OF _ tile_seq_tile.hyps(1)]) simp
  moreover have "parse_tiles (acc @ [\<lparr>dimensions = ds\<rparr>]) (b @ r)
      = Some ((acc @ [\<lparr>dimensions = ds\<rparr>]) @ tls, r)"
    by (rule tile_seq_tile.IH [OF tile_seq_tile.prems])
  ultimately show ?case
    by (subst parse_tiles.simps)
       (simp add: parseOptionalLParen_def parseOptionalRParen_def expect_def)
qed

lemma parse_complete:
  assumes "descriptor a body"
  shows "parse (body @ r) = Some (a, r)"
proof -
  from assms obtain tt st where
    tt: "tile_seq (tiles a) tt" and st: "int_list (tile_strides a) st"
    and body: "body = Less # tt @ Comma # LSquare # st @ [RSquare, Greater]"
    by (auto simp: descriptor_def)
  have 1: "parseLess (body @ r) = Some (tt @ Comma # LSquare # st @ RSquare # Greater # r)"
    by (simp add: body parseLess_def expect_def)
  have 2: "parse_tiles [] (tt @ Comma # LSquare # st @ RSquare # Greater # r)
      = Some ([] @ tiles a, Comma # LSquare # st @ RSquare # Greater # r)"
    by (rule parse_tiles_complete [OF tt]) (simp add: expect_def)
  have 3: "parseComma (Comma # LSquare # st @ RSquare # Greater # r)
      = Some (LSquare # st @ RSquare # Greater # r)"
    by (simp add: parseComma_def expect_def)
  have 4: "parseOptionalLSquare (LSquare # st @ RSquare # Greater # r)
      = Some (st @ RSquare # Greater # r)"
    by (simp add: parseOptionalLSquare_def expect_def)
  have 5: "parse_ints parseOptionalRSquare True [] (st @ RSquare # Greater # r)
      = Some ([] @ tile_strides a, Greater # r)"
    unfolding parseOptionalRSquare_def by (rule parse_ints_list [OF _ st]) simp
  have 6: "parseGreater (Greater # r) = Some r"
    by (simp add: parseGreater_def expect_def)
  show ?thesis
    by (simp add: parse_def 1 2 3 4 5 6)
qed

subsection \<open>The parser accepts nothing else\<close>

lemma parseInteger_sound:
  "parseInteger ts = Some (w, r) \<Longrightarrow> \<exists>a. int_toks w a \<and> ts = a @ r"
  by (auto simp: parseInteger_def int_toks_def split: list.splits token.splits if_splits)

lemma expect_sound: "expect c ts = Some r \<Longrightarrow> ts = c # r"
  by (auto simp: expect_def split: list.splits if_splits)

lemma parse_ints_sound:
  "closing = expect c \<Longrightarrow> parse_ints closing first acc ts = Some (res, r) \<Longrightarrow>
     \<exists>ws b. res = acc @ ws \<and> ts = b @ c # r \<and> (if first then int_list ws b else more_ints ws b)"
proof (induction closing first acc ts arbitrary: res r rule: parse_ints.induct)
  case (1 closing first acc ts)
  note cl = "1.prems"(1) and run = "1.prems"(2)
  show ?case
  proof (cases "closing ts")
    case (Some rest)
    with run have "res = acc" and "r = rest"
      by (simp_all add: parse_ints.simps [of closing first acc ts])
    moreover from Some cl have "ts = c # rest" by (simp add: expect_sound)
    ultimately have "res = acc @ [] \<and> ts = [] @ c # r \<and>
        (if first then int_list [] [] else more_ints [] [])"
      by (simp add: int_list_empty more_none)
    then show ?thesis by blast
  next
    case None
    with run obtain ts1 n ts2 where
      a: "(if \<not> first then parseComma ts else Some ts) = Some ts1"
      and b: "parseInteger ts1 = Some (n, ts2)"
      and rec: "parse_ints closing False (acc @ [n]) ts2 = Some (res, r)"
      by (auto simp: parse_ints.simps [of closing first acc ts] split: option.splits)
    from "1.IH" [OF None a b refl cl rec] obtain ws' b' where
      res: "res = (acc @ [n]) @ ws'" and ts2: "ts2 = b' @ c # r" and more: "more_ints ws' b'"
      by auto
    from parseInteger_sound [OF b] obtain ia where ia: "int_toks n ia" and ts1: "ts1 = ia @ ts2"
      by blast
    show ?thesis
    proof (cases first)
      case True
      with a ts1 ts2 have "ts = (ia @ b') @ c # r" by simp
      moreover from ia more have "int_list (n # ws') (ia @ b')" by (rule int_list_some)
      ultimately have "res = acc @ (n # ws') \<and> ts = (ia @ b') @ c # r \<and>
          (if first then int_list (n # ws') (ia @ b') else more_ints (n # ws') (ia @ b'))"
        using res True by simp
      then show ?thesis by blast
    next
      case False
      with a have "ts = Comma # ts1" by (simp add: parseComma_def expect_sound)
      with ts1 ts2 have "ts = (Comma # ia @ b') @ c # r" by simp
      moreover from ia more have "more_ints (n # ws') (Comma # ia @ b')" by (rule more_int)
      ultimately have "res = acc @ (n # ws') \<and> ts = (Comma # ia @ b') @ c # r \<and>
          (if first then int_list (n # ws') (Comma # ia @ b')
           else more_ints (n # ws') (Comma # ia @ b'))"
        using res False by simp
      then show ?thesis by blast
    qed
  qed
qed

lemma parse_tiles_sound:
  "parse_tiles acc ts = Some (res, r) \<Longrightarrow> \<exists>tls b. res = acc @ tls \<and> ts = b @ r \<and> tile_seq tls b"
proof (induction acc ts arbitrary: res r rule: parse_tiles.induct)
  case (1 acc ts)
  note run = "1.prems"
  show ?case
  proof (cases "parseOptionalLParen ts")
    case None
    with run have "res = acc @ [] \<and> ts = [] @ r \<and> tile_seq [] []"
      by (simp add: parse_tiles.simps [of acc ts] tile_seq_empty)
    then show ?thesis by blast
  next
    case (Some ts1)
    with run obtain dims ts2 where
      ints: "parse_ints parseOptionalRParen True [] ts1 = Some (dims, ts2)"
      and rec: "parse_tiles (acc @ [\<lparr>dimensions = dims\<rparr>]) ts2 = Some (res, r)"
      by (auto simp: parse_tiles.simps [of acc ts] split: option.splits)
    from "1.IH" [OF Some ints refl rec] obtain tls' b' where
      res: "res = (acc @ [\<lparr>dimensions = dims\<rparr>]) @ tls'" and ts2: "ts2 = b' @ r"
      and seq: "tile_seq tls' b'"
      by auto
    from parse_ints_sound [OF parseOptionalRParen_def ints] obtain b where
      ts1: "ts1 = b @ RParen # ts2" and il: "int_list dims b"
      by auto
    from Some have "ts = LParen # ts1" by (simp add: parseOptionalLParen_def expect_sound)
    with ts1 ts2 have "ts = (LParen # b @ RParen # b') @ r" by simp
    moreover from il seq have "tile_seq (\<lparr>dimensions = dims\<rparr> # tls') (LParen # b @ RParen # b')"
      by (rule tile_seq_tile)
    ultimately have "res = acc @ (\<lparr>dimensions = dims\<rparr> # tls') \<and>
        ts = (LParen # b @ RParen # b') @ r \<and>
        tile_seq (\<lparr>dimensions = dims\<rparr> # tls') (LParen # b @ RParen # b')"
      using res by simp
    then show ?thesis by blast
  qed
qed

lemma parse_sound:
  assumes "parse ts = Some (a, r)"
  shows "\<exists>body. descriptor a body \<and> ts = body @ r"
proof -
  from assms obtain ts1 parsed ts2 ts3 ts4 strides ts5 where
    1: "parseLess ts = Some ts1"
    and 2: "parse_tiles [] ts1 = Some (parsed, ts2)"
    and 3: "parseComma ts2 = Some ts3"
    and 4: "parseOptionalLSquare ts3 = Some ts4"
    and 5: "parse_ints parseOptionalRSquare True [] ts4 = Some (strides, ts5)"
    and 6: "parseGreater ts5 = Some r"
    and a: "a = \<lparr>tiles = parsed, tile_strides = strides\<rparr>"
    by (auto simp: parse_def bind_eq_Some_conv)
  from parse_tiles_sound [OF 2] obtain tt where
    ts1: "ts1 = tt @ ts2" and tt: "tile_seq parsed tt" by auto
  from parse_ints_sound [OF parseOptionalRSquare_def 5] obtain st where
    ts4: "ts4 = st @ RSquare # ts5" and st: "int_list strides st" by auto
  from 1 have "ts = Less # ts1" by (simp add: parseLess_def expect_sound)
  moreover from 3 have "ts2 = Comma # ts3" by (simp add: parseComma_def expect_sound)
  moreover from 4 have "ts3 = LSquare # ts4" by (simp add: parseOptionalLSquare_def expect_sound)
  moreover from 6 have "ts5 = Greater # r" by (simp add: parseGreater_def expect_sound)
  ultimately have "ts = (Less # tt @ Comma # LSquare # st @ [RSquare, Greater]) @ r"
    using ts1 ts4 by simp
  moreover have "descriptor a (Less # tt @ Comma # LSquare # st @ [RSquare, Greater])"
    using tt st by (auto simp: descriptor_def a)
  ultimately show ?thesis by blast
qed

subsection \<open>Round trip and rejection\<close>

text \<open>
  C1. For every descriptor \<open>D\<close> (in particular every one a successful parse produced),
  parsing the text that print emits for \<open>D\<close> succeeds, consumes all of it and yields \<open>D\<close>.
\<close>

theorem print_parse_roundtrip:
  "parse (tokens (print a)) = Some (a, []) \<and> parse_text (print a) = Some a"
proof -
  have "parse (descriptor_tokens a @ []) = Some (a, [])"
    by (rule parse_complete [OF descriptor_descriptor_tokens])
  then show ?thesis by (simp add: parse_text_def tokens_print)
qed

text \<open>
  C8. parse returns the null result exactly on the texts that do not start with a phrase
  of the grammar (a missing comma, an unbalanced bracket or parenthesis, something that
  is not an integer where one is expected, a missing closing angle bracket); and when it
  returns a descriptor, that descriptor is the complete one the consumed phrase spells.
  Failure is a returned value on every path.
\<close>

theorem parse_rejects_malformed:
  "(parse_text s = None \<longleftrightarrow> \<not> well_formed s) \<and>
   (\<forall>a. parse_text s = Some a \<longrightarrow> (\<exists>body rest. descriptor a body \<and> tokens s = body @ rest))"
proof (intro conjI allI impI)
  show "parse_text s = None \<longleftrightarrow> \<not> well_formed s"
  proof
    assume none: "parse_text s = None"
    show "\<not> well_formed s"
    proof
      assume "well_formed s"
      then obtain a body rest where "descriptor a body" and "tokens s = body @ rest"
        by (auto simp: well_formed_def)
      with parse_complete [of a body rest] have "parse_text s = Some a"
        by (simp add: parse_text_def)
      with none show False by simp
    qed
  next
    assume nwf: "\<not> well_formed s"
    show "parse_text s = None"
    proof (rule ccontr)
      assume "parse_text s \<noteq> None"
      then obtain a r where "parse (tokens s) = Some (a, r)"
        by (auto simp: parse_text_def)
      from parse_sound [OF this] have "well_formed s"
        by (auto simp: well_formed_def)
      with nwf show False by simp
    qed
  qed
next
  fix a
  assume "parse_text s = Some a"
  then obtain r where "parse (tokens s) = Some (a, r)"
    by (auto simp: parse_text_def)
  from parse_sound [OF this] show "\<exists>body rest. descriptor a body \<and> tokens s = body @ rest"
    by blast
qed

lemmas parse_eval = parse_text_def tokens_def parse_def parse_ints.simps parse_tiles.simps
  expect_def parseLess_def parseGreater_def parseComma_def parseOptionalLParen_def
  parseOptionalRParen_def parseOptionalLSquare_def parseOptionalRSquare_def parseInteger_def
  is_digit_def is_space_def punct_def flush_def digit_val_def INT64_MAX_def INT64_MIN_def

text \<open>
  The malformed texts of the claim, one of each kind (no separating comma, an unclosed
  parenthesis, an unclosed bracket, a letter for an integer, no closing angle bracket),
  and the well-formed text they were made from.
\<close>

theorem parse_rejects_malformed_witness:
  "parse_text ''<(8,128)(1,128)[1,8]>'' = None \<and> \<not> well_formed ''<(8,128)(1,128)[1,8]>'' \<and>
   parse_text ''<(8,128(1,128),[1,8]>'' = None \<and> \<not> well_formed ''<(8,128(1,128),[1,8]>'' \<and>
   parse_text ''<(8,128)(1,128),[1,8>'' = None \<and> \<not> well_formed ''<(8,128)(1,128),[1,8>'' \<and>
   parse_text ''<(8,x)(1,128),[1,8]>'' = None \<and> \<not> well_formed ''<(8,x)(1,128),[1,8]>'' \<and>
   parse_text ''<(8,128)(1,128),[1,8]'' = None \<and> \<not> well_formed ''<(8,128)(1,128),[1,8]'' \<and>
   parse_text ''<(8,128)(1,128),[1,8]>'' = Some layout_two_level \<and>
   (\<exists>body rest. descriptor layout_two_level body \<and>
      tokens ''<(8,128)(1,128),[1,8]>'' = body @ rest)"
proof -
  have 1: "parse_text ''<(8,128)(1,128)[1,8]>'' = None" by (simp add: parse_eval)
  have 2: "parse_text ''<(8,128(1,128),[1,8]>'' = None" by (simp add: parse_eval)
  have 3: "parse_text ''<(8,128)(1,128),[1,8>'' = None" by (simp add: parse_eval)
  have 4: "parse_text ''<(8,x)(1,128),[1,8]>'' = None" by (simp add: parse_eval)
  have 5: "parse_text ''<(8,128)(1,128),[1,8]'' = None" by (simp add: parse_eval)
  have 6: "parse_text ''<(8,128)(1,128),[1,8]>'' = Some layout_two_level"
    by (simp add: parse_eval layout_two_level_def)
  note thm1 = parse_rejects_malformed [of "''<(8,128)(1,128)[1,8]>''"]
    and thm2 = parse_rejects_malformed [of "''<(8,128(1,128),[1,8]>''"]
    and thm3 = parse_rejects_malformed [of "''<(8,128)(1,128),[1,8>''"]
    and thm4 = parse_rejects_malformed [of "''<(8,x)(1,128),[1,8]>''"]
    and thm5 = parse_rejects_malformed [of "''<(8,128)(1,128),[1,8]''"]
    and thm6 = parse_rejects_malformed [of "''<(8,128)(1,128),[1,8]>''"]
  from thm1 1 have w1: "\<not> well_formed ''<(8,128)(1,128)[1,8]>''" by blast
  from thm2 2 have w2: "\<not> well_formed ''<(8,128(1,128),[1,8]>''" by blast
  from thm3 3 have w3: "\<not> well_formed ''<(8,128)(1,128),[1,8>''" by blast
  from thm4 4 have w4: "\<not> well_formed ''<(8,x)(1,128),[1,8]>''" by blast
  from thm5 5 have w5: "\<not> well_formed ''<(8,128)(1,128),[1,8]''" by blast
  from thm6 6 have w6: "\<exists>body rest. descriptor layout_two_level body \<and>
      tokens ''<(8,128)(1,128),[1,8]>'' = body @ rest" by blast
  from 1 2 3 4 5 6 w1 w2 w3 w4 w5 w6 show ?thesis by blast
qed


end
